theory Spec2Isabelle
  imports Main "HOL-Library.Word"
begin

section \<open>Python bytes and integers\<close>

text \<open>
  A Python \<open>bytes\<close> object is a list of octets; Python integers are unbounded, so they
  are \<open>int\<close>. The slice \<open>data[i:j]\<close> with non-negative constant bounds never raises: it
  is cut off at the end of the data.
\<close>

type_synonym byte = "8 word"

definition bytes_slice :: "nat \<Rightarrow> nat \<Rightarrow> 'a list \<Rightarrow> 'a list" where
  "bytes_slice i j xs = take (j - i) (drop i xs)"

text \<open>\<open>int.from_bytes(bs, byteorder="little")\<close>: unsigned, and 0 on the empty bytes.\<close>

fun int_from_bytes :: "byte list \<Rightarrow> int" where
  "int_from_bytes [] = 0"
| "int_from_bytes (b # bs) = uint b + 256 * int_from_bytes bs"

text \<open>The \<open>k\<close> low octets of \<open>n\<close>, least significant first.\<close>

fun le_bytes :: "nat \<Rightarrow> int \<Rightarrow> byte list" where
  "le_bytes 0 n = []"
| "le_bytes (Suc k) n = word_of_int n # le_bytes k (n div 256)"

text \<open>
  The exceptions raised. The two length checks of \<open>from_bytes\<close> raise the same
  message, "Expected header to be 30 bytes, but got \<open>n\<close> bytes."
\<close>

datatype message =
    ExpectedBytes int          \<comment> \<open>expected 30 bytes, but got \<open>n\<close> bytes\<close>
  | ExpectedMagic "byte list"  \<comment> \<open>expected magic bytes \<open>VH00\<close>, but got these\<close>
  | InvalidValues              \<comment> \<open>instance contains invalid values\<close>

datatype error = ValueError message | OverflowError | AssertionError

text \<open>
  \<open>n.to_bytes(k, byteorder="little")\<close> (unsigned): raises OverflowError on a negative
  integer and on one that does not fit in \<open>k\<close> bytes.
\<close>

definition int_to_bytes :: "int \<Rightarrow> nat \<Rightarrow> error + byte list" where
  "int_to_bytes n k =
     (if n < 0 then Inl OverflowError
      else if 256 ^ k \<le> n then Inl OverflowError
      else Inr (le_bytes k n))"

section \<open>VulkanDelegateHeader\<close>

record VulkanDelegateHeader =
  flatbuffer_offset :: int
  flatbuffer_size :: int
  bytes_offset :: int
  bytes_size :: int

text \<open>The byte region of each component of the header: \<open>slice(start, stop)\<close>.\<close>

definition MAGIC_IX :: "nat \<times> nat" where
  "MAGIC_IX = (4, 8)"

definition HEADER_SIZE_IX :: "nat \<times> nat" where
  "HEADER_SIZE_IX = (8, 10)"

definition FLATBUFFER_OFFSET_IX :: "nat \<times> nat" where
  "FLATBUFFER_OFFSET_IX = (10, 14)"

definition FLATBUFFER_SIZE_IX :: "nat \<times> nat" where
  "FLATBUFFER_SIZE_IX = (14, 18)"

definition BYTES_OFFSET_IX :: "nat \<times> nat" where
  "BYTES_OFFSET_IX = (18, 22)"

definition BYTES_SIZE_IX :: "nat \<times> nat" where
  "BYTES_SIZE_IX = (22, 30)"

text \<open>\<open>data[ix]\<close> for a slice object \<open>ix\<close>.\<close>

definition subscript :: "'a list \<Rightarrow> nat \<times> nat \<Rightarrow> 'a list" where
  "subscript data ix = bytes_slice (fst ix) (snd ix) data"

text \<open>The magic bytes \<open>b"VH00"\<close> and the length of the header in bytes.\<close>

definition EXPECTED_MAGIC :: "byte list" where
  "EXPECTED_MAGIC = [0x56, 0x48, 0x30, 0x30]"

definition EXPECTED_LENGTH :: int where
  "EXPECTED_LENGTH = 30"

definition from_bytes :: "byte list \<Rightarrow> error + VulkanDelegateHeader" where
  "from_bytes data =
     (if int (length data) > EXPECTED_LENGTH then Inl (ValueError (ExpectedBytes (int (length data))))
      else let magic_b = subscript data MAGIC_IX in
        if magic_b \<noteq> EXPECTED_MAGIC then Inl (ValueError (ExpectedMagic magic_b))
        else let len = int_from_bytes (subscript data HEADER_SIZE_IX) in
          if len \<noteq> EXPECTED_LENGTH then Inl (ValueError (ExpectedBytes len))
          else let flatbuffer_offset_b = subscript data FLATBUFFER_OFFSET_IX;
                   flatbuffer_size_b = subscript data FLATBUFFER_SIZE_IX;
                   bytes_offset_b = subscript data BYTES_OFFSET_IX;
                   bytes_size_b = subscript data BYTES_SIZE_IX
               in Inr \<lparr> flatbuffer_offset = int_from_bytes flatbuffer_offset_b,
                        flatbuffer_size = int_from_bytes flatbuffer_size_b,
                        bytes_offset = int_from_bytes bytes_offset_b,
                        bytes_size = int_from_bytes bytes_size_b \<rparr>)"

definition is_valid :: "VulkanDelegateHeader \<Rightarrow> bool" where
  "is_valid h =
     (if flatbuffer_size h \<le> 0 then False
      else let expected_offset = flatbuffer_offset h + flatbuffer_size h in
        if bytes_offset h < expected_offset then False
        else if bytes_size h < 0 then False
        else True)"

text \<open>
  The operands of the concatenation are evaluated from left to right, so the first
  conversion that overflows is the one that raises.
\<close>

definition to_bytes :: "VulkanDelegateHeader \<Rightarrow> error + byte list" where
  "to_bytes h =
     (if \<not> is_valid h then Inl (ValueError InvalidValues)
      else case int_to_bytes EXPECTED_LENGTH 2 of Inl e \<Rightarrow> Inl e | Inr len_b \<Rightarrow>
        (case int_to_bytes (flatbuffer_offset h) 4 of Inl e \<Rightarrow> Inl e | Inr fo_b \<Rightarrow>
        (case int_to_bytes (flatbuffer_size h) 4 of Inl e \<Rightarrow> Inl e | Inr fs_b \<Rightarrow>
        (case int_to_bytes (bytes_offset h) 4 of Inl e \<Rightarrow> Inl e | Inr bo_b \<Rightarrow>
        (case int_to_bytes (bytes_size h) 8 of Inl e \<Rightarrow> Inl e | Inr bs_b \<Rightarrow>
          (let data = [0, 0, 0, 0] @ EXPECTED_MAGIC @ len_b @ fo_b @ fs_b @ bo_b @ bs_b in
           if int (length data) \<noteq> EXPECTED_LENGTH then Inl AssertionError
           else Inr data))))))"

text \<open>The 30 bytes that \<open>to_bytes\<close> concatenates.\<close>

definition header_layout :: "VulkanDelegateHeader \<Rightarrow> byte list" where
  "header_layout h = [0, 0, 0, 0] @ [0x56, 0x48, 0x30, 0x30] @ [30, 0]
      @ le_bytes 4 (flatbuffer_offset h) @ le_bytes 4 (flatbuffer_size h)
      @ le_bytes 4 (bytes_offset h) @ le_bytes 8 (bytes_size h)"

text \<open>Every field is non-negative and fits the width of its slice.\<close>

definition fits_widths :: "VulkanDelegateHeader \<Rightarrow> bool" where
  "fits_widths h \<longleftrightarrow>
     0 \<le> flatbuffer_offset h \<and> flatbuffer_offset h < 2 ^ 32 \<and>
     0 \<le> flatbuffer_size h \<and> flatbuffer_size h < 2 ^ 32 \<and>
     0 \<le> bytes_offset h \<and> bytes_offset h < 2 ^ 32 \<and>
     0 \<le> bytes_size h \<and> bytes_size h < 2 ^ 64"

section \<open>Tensor specs, graph nodes and the lowering passes\<close>

text \<open>
  The view-elision pass, the memory planner and the emitter are exercised by
  \<open>exir/tests/test_remove_view_copy.py\<close>, but their code is not part of the sources at
  hand. They are modelled here from the written specification; the graph of the test is
  taken from the test itself.
\<close>

text \<open>
  Modelled from the spec: the TensorSpec data model (its class is missing). A storage
  identifier and a pool identifier are numbers; the lifetime is the inclusive pair of
  node indices \<open>(first_use, last_use)\<close>.
\<close>

record TensorSpec =
  shape :: "nat list"
  dtype :: string
  lifetime :: "nat \<times> nat"
  const :: bool
  storage :: "nat option"
  mem_id :: "nat option"
  mem_offset :: "nat option"

text \<open>
  Modelled from the spec: an operator identity \<open>(namespace, name, overload)\<close>, the entry
  of the operator table.
\<close>

datatype op_identity = OpIdentity (op_namespace: string) (op_name: string) (op_overload: string)

text \<open>
  Modelled from the spec: a graph node (the graph classes are missing). The columns are
  those of the table printed in \<open>test_spec\<close>: name, target (with the opcode folded in)
  and arguments. An argument is the index of an earlier node; the graph is the list of
  its nodes in program order. Each node carries the spec of the value it denotes.
\<close>

datatype target =
    Placeholder
  | Output
  | MemoryAlloc
  | MemoryView
  | CallOperator op_identity

record node =
  name :: string
  target :: target
  args :: "nat list"
  spec :: TensorSpec

text \<open>
  Modelled from the spec: the operator with pure view semantics that the pass elides
  (\<open>aten.view_copy.default\<close>, after which the nodes of the test are named).
\<close>

definition view_copy :: target where
  "view_copy = CallOperator (OpIdentity ''aten'' ''view_copy'' ''default'')"

text \<open>
  Modelled from the spec: a view node is a node with pure view semantics, before the
  pass (\<open>view_copy\<close>) or after it (\<open>memory.view\<close>).
\<close>

definition is_view :: "node \<Rightarrow> bool" where
  "is_view n \<longleftrightarrow> target n = MemoryView \<or> target n = view_copy"

text \<open>
  Modelled from the spec: "resolve its base transitively to a non-view ancestor". The
  base of a view is its first argument; arguments precede their users in program order,
  which is what makes the resolution terminate.
\<close>

function resolve_base :: "node list \<Rightarrow> nat \<Rightarrow> nat" where
  "resolve_base g v =
     (if v < length g \<and> is_view (g ! v) then
        (case args (g ! v) of
           [] \<Rightarrow> v
         | a # _ \<Rightarrow> if a < v then resolve_base g a else v)
      else v)"
  by pat_completeness auto
termination
  by (relation "measure snd") auto

declare resolve_base.simps [simp del]

text \<open>
  Modelled from the spec: the alias relation is "purely a relation for lookup". The spec
  read at a \<open>memory.view\<close> node is the spec of its resolved base in every memory field
  and in the lifetime; the view keeps its own shape and element type.
\<close>

definition spec_of :: "node list \<Rightarrow> nat \<Rightarrow> TensorSpec" where
  "spec_of g v =
     (if target (g ! v) = MemoryView
      then (spec (g ! resolve_base g v))\<lparr>shape := shape (spec (g ! v)), dtype := dtype (spec (g ! v))\<rparr>
      else spec (g ! v))"

text \<open>
  Modelled from the spec: the failures of the view-elision pass. A view without a base
  cannot be resolved; a value viewed after its lifetime has ended is the invariant
  violation of the spec. Both carry the name of the offending node.
\<close>

datatype pass_error = MissingBase string | LifetimeEnded string

text \<open>
  Modelled from the spec: the lifetime of the base "is enlarged to
  \<open>max(B.lifetime.last, V.lifetime.last)\<close>".
\<close>

definition extend_lifetime :: "nat \<Rightarrow> TensorSpec \<Rightarrow> TensorSpec" where
  "extend_lifetime last_use s = s\<lparr>lifetime := (fst (lifetime s), max (snd (lifetime s)) last_use)\<rparr>"

text \<open>
  Modelled from the spec: one step of the view-elision pass (the pass itself is missing).
  For a view node: resolve the base, fail if the base's lifetime has ended before the
  view, extend the upper bound of the base's lifetime to the view's last use, and mark
  the node as an alias (\<open>memory.view\<close>). Other nodes are left alone.
\<close>

definition elide_node :: "nat \<Rightarrow> node list \<Rightarrow> pass_error + node list" where
  "elide_node i g =
     (if target (g ! i) \<noteq> view_copy then Inr g
      else case args (g ! i) of
          [] \<Rightarrow> Inl (MissingBase (name (g ! i)))
        | a # _ \<Rightarrow>
            let b = resolve_base g a in
            if snd (lifetime (spec (g ! b))) < i then Inl (LifetimeEnded (name (g ! i)))
            else
              let g1 = g[b := (g ! b)\<lparr>spec := extend_lifetime (snd (lifetime (spec (g ! i)))) (spec (g ! b))\<rparr>]
              in Inr (g1[i := (g1 ! i)\<lparr>target := MemoryView\<rparr>]))"

text \<open>Modelled from the spec: the pass traverses the nodes in program order.\<close>

fun elide_nodes :: "nat list \<Rightarrow> node list \<Rightarrow> pass_error + node list" where
  "elide_nodes [] g = Inr g"
| "elide_nodes (i # is) g =
     (case elide_node i g of Inl e \<Rightarrow> Inl e | Inr g1 \<Rightarrow> elide_nodes is g1)"

text \<open>Modelled from the spec: the view-elision pass over the whole graph.\<close>

definition remove_view_copy :: "node list \<Rightarrow> pass_error + node list" where
  "remove_view_copy g = elide_nodes [0..<length g] g"

text \<open>
  Modelled from the spec: the contract of the memory planner (the planner is missing):
  every non-constant, non-alias value receives a \<open>(mem_id, mem_offset)\<close> pair. Which
  pair is the choice of the planning strategy, here the parameter \<open>place\<close>.
\<close>

definition plan_node :: "(nat \<Rightarrow> nat \<times> nat) \<Rightarrow> nat \<Rightarrow> node \<Rightarrow> node" where
  "plan_node place i n =
     (if const (spec n) \<or> target n = MemoryView then n
      else n\<lparr>spec := (spec n)\<lparr>mem_id := Some (fst (place i)), mem_offset := Some (snd (place i))\<rparr>\<rparr>)"

text \<open>Modelled from the spec: the memory planner over the whole graph.\<close>

definition memory_planning :: "(nat \<Rightarrow> nat \<times> nat) \<Rightarrow> node list \<Rightarrow> node list" where
  "memory_planning place g = map (\<lambda>i. plan_node place i (g ! i)) [0..<length g]"

text \<open>
  Modelled from the spec: an instruction (an operator index and its argument references)
  and the execution plan (operator table and instruction chain).
\<close>

record Instruction =
  op_index :: nat
  instr_args :: "nat list"

record ExecutionPlan =
  operators :: "op_identity list"
  instructions :: "Instruction list"

text \<open>
  Modelled from the spec: the operator of the lightweight reinterpret instruction; the
  test reads its name as \<open>executorch_prim::et_view\<close>.
\<close>

definition et_view :: op_identity where
  "et_view = OpIdentity ''executorch_prim'' ''et_view'' ''default''"

text \<open>
  Modelled from the spec: which operator an executable node calls. An operator call
  calls its operator; an elided view that changes the shape of its argument needs the
  lightweight reinterpret step; a view that changes nothing is fully absorbed;
  placeholders, allocations and the output emit nothing.
\<close>

definition callee :: "node list \<Rightarrow> nat \<Rightarrow> op_identity option" where
  "callee g i =
     (case target (g ! i) of
        CallOperator opr \<Rightarrow> Some opr
      | MemoryView \<Rightarrow>
          (case args (g ! i) of
             [] \<Rightarrow> None
           | a # _ \<Rightarrow> if shape (spec (g ! i)) = shape (spec (g ! a)) then None else Some et_view)
      | _ \<Rightarrow> None)"

text \<open>Modelled from the spec: the lookup in the operator table.\<close>

fun index_of :: "'a \<Rightarrow> 'a list \<Rightarrow> nat option" where
  "index_of x [] = None"
| "index_of x (y # ys) = (if x = y then Some 0 else map_option Suc (index_of x ys))"

text \<open>
  Modelled from the spec: the emitter (missing). The operator identity is looked up in
  the table; its first occurrence appends a new entry and returns its index, later
  occurrences reuse the index. One instruction is emitted per executable node, in
  program order.
\<close>

definition emit_node :: "node list \<Rightarrow> nat \<Rightarrow> ExecutionPlan \<Rightarrow> ExecutionPlan" where
  "emit_node g i plan =
     (case callee g i of
        None \<Rightarrow> plan
      | Some opr \<Rightarrow>
          (case index_of opr (operators plan) of
             Some k \<Rightarrow> plan\<lparr>instructions := instructions plan @ [\<lparr>op_index = k, instr_args = args (g ! i)\<rparr>]\<rparr>
           | None \<Rightarrow> \<lparr>operators = operators plan @ [opr],
                       instructions = instructions plan
                          @ [\<lparr>op_index = length (operators plan), instr_args = args (g ! i)\<rparr>]\<rparr>))"

text \<open>Modelled from the spec: the emitter over the whole graph, from an empty plan.\<close>

definition emit :: "node list \<Rightarrow> ExecutionPlan" where
  "emit g = fold (emit_node g) [0..<length g] \<lparr>operators = [], instructions = []\<rparr>"

text \<open>The name under which the test reads an operator: \<open>namespace::name\<close>.\<close>

definition qualified_name :: "op_identity \<Rightarrow> string" where
  "qualified_name opr = op_namespace opr @ ''::'' @ op_name opr"

subsection \<open>The graph of the test\<close>

text \<open>
  \<open>TestModel1.forward\<close> as exported, before the pass: the nodes of the table in
  \<open>test_spec\<close>, the three views still \<open>view_copy\<close> calls. The parameter is a constant
  with storage. A lifetime runs from the creation of the value (for the product, of its
  \<open>out\<close> buffer) to its last use.
\<close>

definition test_model_graph :: "node list" where
  "test_model_graph =
    [\<lparr>name = ''p_parameter'', target = Placeholder, args = [],
      spec = \<lparr>shape = [5, 6], dtype = ''float32'', lifetime = (0, 2), const = True,
              storage = Some 0, mem_id = None, mem_offset = None\<rparr>\<rparr>,
     \<lparr>name = ''x'', target = Placeholder, args = [],
      spec = \<lparr>shape = [5, 6], dtype = ''float32'', lifetime = (1, 3), const = False,
              storage = None, mem_id = None, mem_offset = None\<rparr>\<rparr>,
     \<lparr>name = ''aten_view_copy_default'', target = view_copy, args = [0],
      spec = \<lparr>shape = [6, 5], dtype = ''float32'', lifetime = (2, 5), const = False,
              storage = None, mem_id = None, mem_offset = None\<rparr>\<rparr>,
     \<lparr>name = ''aten_view_copy_default_1'', target = view_copy, args = [1],
      spec = \<lparr>shape = [6, 5], dtype = ''float32'', lifetime = (3, 5), const = False,
              storage = None, mem_id = None, mem_offset = None\<rparr>\<rparr>,
     \<lparr>name = ''alloc'', target = MemoryAlloc, args = [],
      spec = \<lparr>shape = [6, 5], dtype = ''float32'', lifetime = (4, 6), const = False,
              storage = None, mem_id = None, mem_offset = None\<rparr>\<rparr>,
     \<lparr>name = ''aten_mul_tensor'', target = CallOperator (OpIdentity ''aten'' ''mul'' ''out''),
      args = [2, 3, 4],
      spec = \<lparr>shape = [6, 5], dtype = ''float32'', lifetime = (4, 6), const = False,
              storage = None, mem_id = None, mem_offset = None\<rparr>\<rparr>,
     \<lparr>name = ''aten_view_copy_default_2'', target = view_copy, args = [5],
      spec = \<lparr>shape = [30], dtype = ''float32'', lifetime = (6, 7), const = False,
              storage = None, mem_id = None, mem_offset = None\<rparr>\<rparr>,
     \<lparr>name = ''output_1'', target = Output, args = [6],
      spec = \<lparr>shape = [30], dtype = ''float32'', lifetime = (7, 7), const = False,
              storage = None, mem_id = None, mem_offset = None\<rparr>\<rparr>]"

text \<open>The same graph as the table in \<open>test_spec\<close> prints it, after the pass.\<close>

definition test_model_elided :: "node list" where
  "test_model_elided =
    [\<lparr>name = ''p_parameter'', target = Placeholder, args = [],
      spec = \<lparr>shape = [5, 6], dtype = ''float32'', lifetime = (0, 5), const = True,
              storage = Some 0, mem_id = None, mem_offset = None\<rparr>\<rparr>,
     \<lparr>name = ''x'', target = Placeholder, args = [],
      spec = \<lparr>shape = [5, 6], dtype = ''float32'', lifetime = (1, 5), const = False,
              storage = None, mem_id = None, mem_offset = None\<rparr>\<rparr>,
     \<lparr>name = ''aten_view_copy_default'', target = MemoryView, args = [0],
      spec = \<lparr>shape = [6, 5], dtype = ''float32'', lifetime = (2, 5), const = False,
              storage = None, mem_id = None, mem_offset = None\<rparr>\<rparr>,
     \<lparr>name = ''aten_view_copy_default_1'', target = MemoryView, args = [1],
      spec = \<lparr>shape = [6, 5], dtype = ''float32'', lifetime = (3, 5), const = False,
              storage = None, mem_id = None, mem_offset = None\<rparr>\<rparr>,
     \<lparr>name = ''alloc'', target = MemoryAlloc, args = [],
      spec = \<lparr>shape = [6, 5], dtype = ''float32'', lifetime = (4, 6), const = False,
              storage = None, mem_id = None, mem_offset = None\<rparr>\<rparr>,
     \<lparr>name = ''aten_mul_tensor'', target = CallOperator (OpIdentity ''aten'' ''mul'' ''out''),
      args = [2, 3, 4],
      spec = \<lparr>shape = [6, 5], dtype = ''float32'', lifetime = (4, 7), const = False,
              storage = None, mem_id = None, mem_offset = None\<rparr>\<rparr>,
     \<lparr>name = ''aten_view_copy_default_2'', target = MemoryView, args = [5],
      spec = \<lparr>shape = [30], dtype = ''float32'', lifetime = (6, 7), const = False,
              storage = None, mem_id = None, mem_offset = None\<rparr>\<rparr>,
     \<lparr>name = ''output_1'', target = Output, args = [6],
      spec = \<lparr>shape = [30], dtype = ''float32'', lifetime = (7, 7), const = False,
              storage = None, mem_id = None, mem_offset = None\<rparr>\<rparr>]"

text \<open>
  A chain of views, to exercise the transitive resolution: a constant, a view of it, and
  a view of that view, last used at node 9 of some larger program.
\<close>

definition chained_views :: "node list" where
  "chained_views =
    [\<lparr>name = ''p'', target = Placeholder, args = [],
      spec = \<lparr>shape = [2, 3], dtype = ''float32'', lifetime = (0, 1), const = True,
              storage = Some 0, mem_id = None, mem_offset = None\<rparr>\<rparr>,
     \<lparr>name = ''v1'', target = view_copy, args = [0],
      spec = \<lparr>shape = [3, 2], dtype = ''float32'', lifetime = (1, 2), const = False,
              storage = None, mem_id = None, mem_offset = None\<rparr>\<rparr>,
     \<lparr>name = ''v2'', target = view_copy, args = [1],
      spec = \<lparr>shape = [6], dtype = ''float32'', lifetime = (2, 9), const = False,
              storage = None, mem_id = None, mem_offset = None\<rparr>\<rparr>]"

subsection \<open>Well-formed graphs and specs\<close>

text \<open>
  Program order: every argument is an earlier node, and a view has a base. (In the
  source, arguments are references to nodes; here they are indices.)
\<close>

definition wf_graph :: "node list \<Rightarrow> bool" where
  "wf_graph g \<longleftrightarrow>
     (\<forall>i \<in> {0..<length g}. (\<forall>a \<in> set (args (g ! i)). a < i) \<and> (is_view (g ! i) \<longrightarrow> args (g ! i) \<noteq> []))"

text \<open>
  The invariant of a spec: storage is present iff the value is constant, an offset is
  present iff a pool is, and storage excludes a pool.
\<close>

definition spec_inv :: "TensorSpec \<Rightarrow> bool" where
  "spec_inv s \<longleftrightarrow>
     (storage s \<noteq> None \<longleftrightarrow> const s) \<and> (mem_offset s \<noteq> None \<longleftrightarrow> mem_id s \<noteq> None)
     \<and> \<not> (storage s \<noteq> None \<and> mem_id s \<noteq> None)"

text \<open>Two graphs with the same view nodes and the same arguments.\<close>

definition same_links :: "node list \<Rightarrow> node list \<Rightarrow> bool" where
  "same_links g g' \<longleftrightarrow>
     length g' = length g \<and> (\<forall>i < length g. args (g' ! i) = args (g ! i) \<and> is_view (g' ! i) = is_view (g ! i))"

definition last_use :: "node list \<Rightarrow> nat \<Rightarrow> nat" where
  "last_use g i = snd (lifetime (spec (g ! i)))"

text \<open>
  What the pass may change: a \<open>view_copy\<close> becomes a \<open>memory.view\<close>, and the last use
  of a node that is not a view may grow. Everything else stays.
\<close>

definition elided_from :: "node list \<Rightarrow> node list \<Rightarrow> bool" where
  "elided_from g g' \<longleftrightarrow>
     length g' = length g \<and>
     (\<forall>j < length g.
        name (g' ! j) = name (g ! j) \<and> args (g' ! j) = args (g ! j)
        \<and> is_view (g' ! j) = is_view (g ! j)
        \<and> (target (g' ! j) = target (g ! j)
             \<or> target (g ! j) = view_copy \<and> target (g' ! j) = MemoryView)
        \<and> spec (g' ! j) = (spec (g ! j))\<lparr>lifetime := (fst (lifetime (spec (g ! j))), last_use g' j)\<rparr>
        \<and> last_use g j \<le> last_use g' j
        \<and> (is_view (g ! j) \<longrightarrow> last_use g' j = last_use g j))"

text \<open>The views that the pass collapses onto the base \<open>b\<close>.\<close>

definition alias_group :: "node list \<Rightarrow> nat \<Rightarrow> nat set" where
  "alias_group g b = {u \<in> {0..<length g}. target (g ! u) = view_copy \<and> resolve_base g u = b}"

text \<open>
  The input of the pass has no \<open>memory.view\<close> node yet, and every argument is still
  alive where it is used.
\<close>

definition lifetimes_cover_uses :: "node list \<Rightarrow> bool" where
  "lifetimes_cover_uses g \<longleftrightarrow>
     (\<forall>i \<in> {0..<length g}. target (g ! i) \<noteq> MemoryView
        \<and> (\<forall>a \<in> set (args (g ! i)). i \<le> last_use g a))"

text \<open>The operators called by the nodes \<open>ns\<close>, in order.\<close>

definition callees :: "node list \<Rightarrow> nat list \<Rightarrow> op_identity list" where
  "callees g ns = List.map_filter (callee g) ns"

section \<open>Encoding and decoding of integers\<close>

lemma subscript_simps [simp]:
  "subscript data MAGIC_IX = bytes_slice 4 8 data"
  "subscript data HEADER_SIZE_IX = bytes_slice 8 10 data"
  "subscript data FLATBUFFER_OFFSET_IX = bytes_slice 10 14 data"
  "subscript data FLATBUFFER_SIZE_IX = bytes_slice 14 18 data"
  "subscript data BYTES_OFFSET_IX = bytes_slice 18 22 data"
  "subscript data BYTES_SIZE_IX = bytes_slice 22 30 data"
  by (simp_all add: subscript_def MAGIC_IX_def HEADER_SIZE_IX_def FLATBUFFER_OFFSET_IX_def
      FLATBUFFER_SIZE_IX_def BYTES_OFFSET_IX_def BYTES_SIZE_IX_def)

lemma length_le_bytes [simp]: "length (le_bytes k n) = k"
  by (induction k arbitrary: n) simp_all

lemma int_from_bytes_nonneg: "0 \<le> int_from_bytes bs"
  by (induction bs) simp_all

lemma int_from_le_bytes: "0 \<le> n \<Longrightarrow> n < 256 ^ k \<Longrightarrow> int_from_bytes (le_bytes k n) = n"
proof (induction k arbitrary: n)
  case 0
  then show ?case by simp
next
  case (Suc k)
  have "n div 256 < 256 ^ k"
    using Suc.prems by (simp add: div_less_iff_less_mult mult.commute)
  moreover have "0 \<le> n div 256"
    using Suc.prems by simp
  ultimately have "int_from_bytes (le_bytes k (n div 256)) = n div 256"
    by (rule Suc.IH[rotated])
  moreover have "uint (word_of_int n :: byte) = n mod 256"
    by (simp add: uint_word_of_int)
  ultimately show ?case by simp
qed

lemma le_bytes_nth: "i < k \<Longrightarrow> le_bytes k n ! i = word_of_int (n div 256 ^ i)"
proof (induction k arbitrary: n i)
  case 0
  then show ?case by simp
next
  case (Suc k)
  show ?case
  proof (cases i)
    case 0
    then show ?thesis by simp
  next
    case (Suc j)
    with Suc.prems have "j < k" by simp
    then have "le_bytes k (n div 256) ! j = word_of_int (n div 256 div 256 ^ j)"
      by (rule Suc.IH)
    then show ?thesis
      using Suc by (simp add: zdiv_zmult2_eq)
  qed
qed

lemma le_bytes_2_30: "le_bytes 2 30 = [30, 0]"
  by (simp add: numeral_2_eq_2)

lemma int_to_bytes_Inr:
  "int_to_bytes n k = Inr bs \<longleftrightarrow> 0 \<le> n \<and> n < 256 ^ k \<and> bs = le_bytes k n"
  by (auto simp: int_to_bytes_def)

section \<open>Validity, writing and reading of the header\<close>

lemma is_valid_iff:
  "is_valid h \<longleftrightarrow>
     0 < flatbuffer_size h \<and> flatbuffer_offset h + flatbuffer_size h \<le> bytes_offset h
     \<and> 0 \<le> bytes_size h"
  by (auto simp: is_valid_def Let_def)

lemma to_bytes_fits:
  assumes "is_valid h" "fits_widths h"
  shows "to_bytes h = Inr (header_layout h)"
  using assms
  by (simp add: to_bytes_def fits_widths_def int_to_bytes_def EXPECTED_LENGTH_def
      EXPECTED_MAGIC_def header_layout_def le_bytes_2_30)

lemma to_bytes_not_fits:
  assumes "is_valid h" "\<not> fits_widths h"
  shows "to_bytes h = Inl OverflowError"
  using assms
  by (auto simp add: to_bytes_def fits_widths_def int_to_bytes_def EXPECTED_LENGTH_def
      split: sum.splits)

lemma to_bytes_invalid: "\<not> is_valid h \<Longrightarrow> to_bytes h = Inl (ValueError InvalidValues)"
  by (simp add: to_bytes_def)

lemma to_bytes_Inr_iff:
  "to_bytes h = Inr data \<longleftrightarrow> is_valid h \<and> fits_widths h \<and> data = header_layout h"
  by (metis to_bytes_fits to_bytes_not_fits to_bytes_invalid sum.inject(2) Inl_Inr_False)

lemma to_bytes_never_asserts: "to_bytes h \<noteq> Inl AssertionError"
proof (cases "is_valid h")
  case False
  then show ?thesis by (simp add: to_bytes_invalid)
next
  case True
  then show ?thesis
    by (cases "fits_widths h") (simp_all add: to_bytes_fits to_bytes_not_fits)
qed

lemma slice_layout:
  assumes "length a = 10" "length b = 4" "length c = 4" "length d = 4" "length e = 8"
  shows "bytes_slice 10 14 (a @ b @ c @ d @ e) = b"
    and "bytes_slice 14 18 (a @ b @ c @ d @ e) = c"
    and "bytes_slice 18 22 (a @ b @ c @ d @ e) = d"
    and "bytes_slice 22 30 (a @ b @ c @ d @ e) = e"
  using assms by (simp_all add: bytes_slice_def)

lemma header_layout_slices:
  "length (header_layout h) = 30"
  "bytes_slice 0 4 (header_layout h) = [0, 0, 0, 0]"
  "bytes_slice 4 8 (header_layout h) = [0x56, 0x48, 0x30, 0x30]"
  "bytes_slice 8 10 (header_layout h) = [30, 0]"
  "bytes_slice 10 14 (header_layout h) = le_bytes 4 (flatbuffer_offset h)"
  "bytes_slice 14 18 (header_layout h) = le_bytes 4 (flatbuffer_size h)"
  "bytes_slice 18 22 (header_layout h) = le_bytes 4 (bytes_offset h)"
  "bytes_slice 22 30 (header_layout h) = le_bytes 8 (bytes_size h)"
  using slice_layout[of "[0, 0, 0, 0] @ [0x56, 0x48, 0x30, 0x30] @ [30, 0]"
      "le_bytes 4 (flatbuffer_offset h)" "le_bytes 4 (flatbuffer_size h)"
      "le_bytes 4 (bytes_offset h)" "le_bytes 8 (bytes_size h)"]
  by (simp_all add: header_layout_def bytes_slice_def)

lemma from_bytes_layout:
  assumes "fits_widths h"
  shows "from_bytes (header_layout h) = Inr h"
  using assms
  by (simp add: from_bytes_def header_layout_slices EXPECTED_LENGTH_def EXPECTED_MAGIC_def
      int_from_le_bytes fits_widths_def)

lemma from_bytes_Inr_iff:
  "from_bytes data = Inr h \<longleftrightarrow>
     length data \<le> 30 \<and> bytes_slice 4 8 data = EXPECTED_MAGIC \<and> int_from_bytes (bytes_slice 8 10 data) = 30
     \<and> h = \<lparr> flatbuffer_offset = int_from_bytes (bytes_slice 10 14 data),
             flatbuffer_size = int_from_bytes (bytes_slice 14 18 data),
             bytes_offset = int_from_bytes (bytes_slice 18 22 data),
             bytes_size = int_from_bytes (bytes_slice 22 30 data) \<rparr>"
  by (auto simp: from_bytes_def EXPECTED_LENGTH_def Let_def)

section \<open>The claims about the delegate header\<close>

text \<open>
  Claim C1 (header round-trip). As stated, the claim covers every header on which
  \<open>is_valid\<close> is true. The header below is valid, but its \<open>flatbuffer_size\<close> is
  \<open>2 ^ 32\<close> and does not fit the 4 bytes of its field: \<open>to_bytes\<close> raises OverflowError,
  so there is no buffer to read back.
\<close>

theorem header_round_trip_counterexample:
  "is_valid \<lparr>flatbuffer_offset = 30, flatbuffer_size = 4294967296, bytes_offset = 4294967326,
             bytes_size = 0\<rparr>
   \<and> to_bytes \<lparr>flatbuffer_offset = 30, flatbuffer_size = 4294967296, bytes_offset = 4294967326,
                bytes_size = 0\<rparr> = Inl OverflowError"
  by code_simp

text \<open>
  Claim C1, amended. For every header \<open>h\<close> on which \<open>is_valid\<close> is true and whose four
  fields are non-negative and fit their widths (4 bytes, 8 for \<open>bytes_size\<close>),
  \<open>to_bytes\<close> returns a buffer of 30 bytes, and \<open>from_bytes\<close> on that buffer returns
  \<open>h\<close> itself: all four fields are read back unchanged.
\<close>

theorem header_round_trip:
  assumes "is_valid h"
    and "0 \<le> flatbuffer_offset h" and "flatbuffer_offset h < 2 ^ 32"
    and "0 \<le> flatbuffer_size h" and "flatbuffer_size h < 2 ^ 32"
    and "0 \<le> bytes_offset h" and "bytes_offset h < 2 ^ 32"
    and "0 \<le> bytes_size h" and "bytes_size h < 2 ^ 64"
  shows "\<exists>data. to_bytes h = Inr data \<and> length data = 30 \<and> from_bytes data = Inr h"
proof -
  from assms have fits: "fits_widths h" by (simp add: fits_widths_def)
  with assms(1) have enc: "to_bytes h = Inr (header_layout h)" by (rule to_bytes_fits)
  from fits have dec: "from_bytes (header_layout h) = Inr h" by (rule from_bytes_layout)
  have len: "length (header_layout h) = 30" by (rule header_layout_slices(1))
  from enc dec len show ?thesis by simp
qed

theorem header_round_trip_witness:
  "\<exists>data. to_bytes \<lparr>flatbuffer_offset = 30, flatbuffer_size = 300, bytes_offset = 336,
                     bytes_size = 65536\<rparr> = Inr data
     \<and> length data = 30
     \<and> from_bytes data
          = Inr \<lparr>flatbuffer_offset = 30, flatbuffer_size = 300, bytes_offset = 336,
                 bytes_size = 65536\<rparr>"
  using header_round_trip [of "\<lparr>flatbuffer_offset = 30, flatbuffer_size = 300,
      bytes_offset = 336, bytes_size = 65536\<rparr>"]
  by (simp add: is_valid_iff)

text \<open>
  Claim C2 (header rejection). \<open>from_bytes\<close> raises on every buffer longer than 30 bytes,
  on every buffer whose bytes 4..7 are not \<open>VH00\<close>, and on every buffer whose two bytes
  8..9 do not decode (little-endian) to 30. The result is then an error and no header.
\<close>

theorem from_bytes_rejects:
  assumes "30 < length data \<or> bytes_slice 4 8 data \<noteq> [0x56, 0x48, 0x30, 0x30]
           \<or> int_from_bytes (bytes_slice 8 10 data) \<noteq> 30"
  shows "(\<exists>e. from_bytes data = Inl e) \<and> (\<forall>h. from_bytes data \<noteq> Inr h)"
  using assms by (auto simp: from_bytes_def EXPECTED_LENGTH_def EXPECTED_MAGIC_def Let_def)

theorem from_bytes_rejects_witness:
  "(\<exists>e. from_bytes (replicate 31 0) = Inl e)
   \<and> (\<exists>e. from_bytes [0, 0, 0, 0, 0x56, 0x48, 0x30, 0x31, 30, 0] = Inl e)
   \<and> (\<exists>e. from_bytes [0, 0, 0, 0, 0x56, 0x48, 0x30, 0x30, 31, 0] = Inl e)"
proof -
  have 1: "30 < length (replicate 31 (0::byte))" by simp
  have 2: "bytes_slice 4 8 [0, 0, 0, 0, 0x56, 0x48, 0x30, 0x31, 30, 0] \<noteq> [0x56, 0x48, 0x30, 0x30 :: byte]"
    by (simp add: bytes_slice_def)
  have 3: "int_from_bytes (bytes_slice 8 10 [0, 0, 0, 0, 0x56, 0x48, 0x30, 0x30, 31, 0]) \<noteq> 30"
    by (simp add: bytes_slice_def)
  show ?thesis
    using from_bytes_rejects [of "replicate 31 0"] 1
      from_bytes_rejects [of "[0, 0, 0, 0, 0x56, 0x48, 0x30, 0x31, 30, 0]"] 2
      from_bytes_rejects [of "[0, 0, 0, 0, 0x56, 0x48, 0x30, 0x30, 31, 0]"] 3
    by blast
qed

text \<open>
  Claim C3 (short buffers). The claim is that a buffer shorter than 30 bytes is always
  rejected. The code checks only \<open>len(data) > 30\<close>; slices beyond the end of the data
  are empty and decode to 0. On the 10 bytes below (right magic, length field 30) it
  returns a header whose four fields are 0.
\<close>

theorem from_bytes_accepts_short_buffer:
  "from_bytes [0, 0, 0, 0, 0x56, 0x48, 0x30, 0x30, 30, 0]
     = Inr \<lparr>flatbuffer_offset = 0, flatbuffer_size = 0, bytes_offset = 0, bytes_size = 0\<rparr>"
  by code_simp

text \<open>
  Claim C4 (layout written by \<open>to_bytes\<close>). As stated, the claim promises a buffer for
  every valid header. A valid header whose \<open>bytes_offset\<close> is \<open>2 ^ 32\<close> makes
  \<open>int.to_bytes\<close> raise OverflowError instead.
\<close>

theorem to_bytes_valid_overflow_counterexample:
  "is_valid \<lparr>flatbuffer_offset = 0, flatbuffer_size = 1, bytes_offset = 4294967296, bytes_size = 0\<rparr>
   \<and> to_bytes \<lparr>flatbuffer_offset = 0, flatbuffer_size = 1, bytes_offset = 4294967296, bytes_size = 0\<rparr>
       = Inl OverflowError"
  by code_simp

text \<open>
  Claim C4, amended. \<open>to_bytes\<close> raises whenever \<open>is_valid\<close> is false. When
  \<open>is_valid\<close> is true and every field is non-negative and fits its width (4 bytes, 8
  for \<open>bytes_size\<close>), it returns exactly 30 bytes: bytes 0..3 zero, bytes 4..7 \<open>VH00\<close>,
  bytes 8..9 the little-endian 30, and the four fields little-endian at offsets 10..13,
  14..17, 18..21 and 22..29. (\<open>le_bytes_nth\<close>: byte \<open>i\<close> of \<open>le_bytes k n\<close> is
  \<open>n div 256 ^ i\<close> modulo 256.)
\<close>

theorem to_bytes_layout:
  "(\<not> is_valid h \<longrightarrow> to_bytes h = Inl (ValueError InvalidValues)) \<and>
   (is_valid h \<and> 0 \<le> flatbuffer_offset h \<and> flatbuffer_offset h < 2 ^ 32
      \<and> 0 \<le> flatbuffer_size h \<and> flatbuffer_size h < 2 ^ 32
      \<and> 0 \<le> bytes_offset h \<and> bytes_offset h < 2 ^ 32
      \<and> 0 \<le> bytes_size h \<and> bytes_size h < 2 ^ 64 \<longrightarrow>
    (\<exists>data. to_bytes h = Inr data \<and> length data = 30
       \<and> bytes_slice 0 4 data = [0, 0, 0, 0]
       \<and> bytes_slice 4 8 data = [0x56, 0x48, 0x30, 0x30]
       \<and> bytes_slice 8 10 data = le_bytes 2 30
       \<and> bytes_slice 10 14 data = le_bytes 4 (flatbuffer_offset h)
       \<and> bytes_slice 14 18 data = le_bytes 4 (flatbuffer_size h)
       \<and> bytes_slice 18 22 data = le_bytes 4 (bytes_offset h)
       \<and> bytes_slice 22 30 data = le_bytes 8 (bytes_size h)))"
proof (intro conjI impI)
  assume "\<not> is_valid h"
  then show "to_bytes h = Inl (ValueError InvalidValues)" by (rule to_bytes_invalid)
next
  assume a: "is_valid h \<and> 0 \<le> flatbuffer_offset h \<and> flatbuffer_offset h < 2 ^ 32
      \<and> 0 \<le> flatbuffer_size h \<and> flatbuffer_size h < 2 ^ 32
      \<and> 0 \<le> bytes_offset h \<and> bytes_offset h < 2 ^ 32
      \<and> 0 \<le> bytes_size h \<and> bytes_size h < 2 ^ 64"
  then have "fits_widths h" by (simp add: fits_widths_def)
  with a have "to_bytes h = Inr (header_layout h)" by (simp add: to_bytes_fits)
  then show "\<exists>data. to_bytes h = Inr data \<and> length data = 30
       \<and> bytes_slice 0 4 data = [0, 0, 0, 0]
       \<and> bytes_slice 4 8 data = [0x56, 0x48, 0x30, 0x30]
       \<and> bytes_slice 8 10 data = le_bytes 2 30
       \<and> bytes_slice 10 14 data = le_bytes 4 (flatbuffer_offset h)
       \<and> bytes_slice 14 18 data = le_bytes 4 (flatbuffer_size h)
       \<and> bytes_slice 18 22 data = le_bytes 4 (bytes_offset h)
       \<and> bytes_slice 22 30 data = le_bytes 8 (bytes_size h)"
    by (simp add: header_layout_slices le_bytes_2_30)
qed

theorem to_bytes_layout_witness:
  "to_bytes \<lparr>flatbuffer_offset = 0, flatbuffer_size = 0, bytes_offset = 0, bytes_size = 0\<rparr>
     = Inl (ValueError InvalidValues)
   \<and> (\<exists>data. to_bytes \<lparr>flatbuffer_offset = 30, flatbuffer_size = 258, bytes_offset = 288,
                        bytes_size = 7\<rparr> = Inr data
        \<and> length data = 30
        \<and> bytes_slice 4 8 data = [0x56, 0x48, 0x30, 0x30]
        \<and> bytes_slice 14 18 data = le_bytes 4 258)"
  using to_bytes_layout [of "\<lparr>flatbuffer_offset = 0, flatbuffer_size = 0, bytes_offset = 0, bytes_size = 0\<rparr>"]
    to_bytes_layout [of "\<lparr>flatbuffer_offset = 30, flatbuffer_size = 258, bytes_offset = 288, bytes_size = 7\<rparr>"]
  by (auto simp: is_valid_iff)

text \<open>
  Claim C5 (validity boundary). \<open>is_valid\<close> is false when \<open>flatbuffer_size\<close> is 0,
  false when \<open>bytes_offset < flatbuffer_offset + flatbuffer_size\<close>, and true at
  \<open>bytes_offset = flatbuffer_offset + flatbuffer_size\<close> when \<open>flatbuffer_size > 0\<close> and
  \<open>bytes_size \<ge> 0\<close>.
\<close>

theorem is_valid_boundary:
  "(flatbuffer_size h = 0 \<longrightarrow> \<not> is_valid h) \<and>
   (bytes_offset h < flatbuffer_offset h + flatbuffer_size h \<longrightarrow> \<not> is_valid h) \<and>
   (0 < flatbuffer_size h \<and> 0 \<le> bytes_size h
      \<and> bytes_offset h = flatbuffer_offset h + flatbuffer_size h \<longrightarrow> is_valid h)"
  by (simp add: is_valid_def Let_def)

theorem is_valid_boundary_witness:
  "\<not> is_valid \<lparr>flatbuffer_offset = 30, flatbuffer_size = 0, bytes_offset = 30, bytes_size = 0\<rparr>
   \<and> \<not> is_valid \<lparr>flatbuffer_offset = 30, flatbuffer_size = 10, bytes_offset = 39, bytes_size = 0\<rparr>
   \<and> is_valid \<lparr>flatbuffer_offset = 30, flatbuffer_size = 10, bytes_offset = 40, bytes_size = 0\<rparr>"
  using is_valid_boundary [of "\<lparr>flatbuffer_offset = 30, flatbuffer_size = 0, bytes_offset = 30, bytes_size = 0\<rparr>"]
    is_valid_boundary [of "\<lparr>flatbuffer_offset = 30, flatbuffer_size = 10, bytes_offset = 39, bytes_size = 0\<rparr>"]
    is_valid_boundary [of "\<lparr>flatbuffer_offset = 30, flatbuffer_size = 10, bytes_offset = 40, bytes_size = 0\<rparr>"]
  by simp

text \<open>
  Claim C9 (overflow of the fixed widths). There are valid headers on which \<open>to_bytes\<close>
  raises: whenever \<open>is_valid\<close> holds and \<open>flatbuffer_offset\<close>, \<open>flatbuffer_size\<close> or
  \<open>bytes_offset\<close> is at least \<open>2 ^ 32\<close>, or \<open>bytes_size\<close> at least \<open>2 ^ 64\<close>, the result is
  OverflowError. So whenever \<open>to_bytes\<close> returns a buffer, the header is valid and every
  field fits its declared width.
\<close>

theorem to_bytes_overflow:
  "(\<exists>h'. is_valid h' \<and> to_bytes h' = Inl OverflowError) \<and>
   (is_valid h \<and> (2 ^ 32 \<le> flatbuffer_offset h \<or> 2 ^ 32 \<le> flatbuffer_size h
        \<or> 2 ^ 32 \<le> bytes_offset h \<or> 2 ^ 64 \<le> bytes_size h)
      \<longrightarrow> to_bytes h = Inl OverflowError) \<and>
   (to_bytes h = Inr data \<longrightarrow>
      is_valid h \<and> 0 \<le> flatbuffer_offset h \<and> flatbuffer_offset h < 2 ^ 32
      \<and> 0 \<le> flatbuffer_size h \<and> flatbuffer_size h < 2 ^ 32
      \<and> 0 \<le> bytes_offset h \<and> bytes_offset h < 2 ^ 32
      \<and> 0 \<le> bytes_size h \<and> bytes_size h < 2 ^ 64)"
proof -
  let ?h = "\<lparr>flatbuffer_offset = 4294967296, flatbuffer_size = 1, bytes_offset = 4294967297,
             bytes_size = 0\<rparr>"
  have "is_valid ?h" by (simp add: is_valid_iff)
  moreover have "\<not> fits_widths ?h" by (simp add: fits_widths_def)
  ultimately have ex: "\<exists>h'. is_valid h' \<and> to_bytes h' = Inl OverflowError"
    using to_bytes_not_fits by blast
  have big: "to_bytes h = Inl OverflowError"
    if "is_valid h \<and> (2 ^ 32 \<le> flatbuffer_offset h \<or> 2 ^ 32 \<le> flatbuffer_size h
        \<or> 2 ^ 32 \<le> bytes_offset h \<or> 2 ^ 64 \<le> bytes_size h)"
  proof -
    from that have "\<not> fits_widths h" by (auto simp: fits_widths_def)
    with that show ?thesis by (simp add: to_bytes_not_fits)
  qed
  have total: "is_valid h \<and> 0 \<le> flatbuffer_offset h \<and> flatbuffer_offset h < 2 ^ 32
      \<and> 0 \<le> flatbuffer_size h \<and> flatbuffer_size h < 2 ^ 32
      \<and> 0 \<le> bytes_offset h \<and> bytes_offset h < 2 ^ 32
      \<and> 0 \<le> bytes_size h \<and> bytes_size h < 2 ^ 64"
    if "to_bytes h = Inr data"
  proof -
    from that have "is_valid h" "fits_widths h" by (simp_all add: to_bytes_Inr_iff)
    then show ?thesis by (simp add: fits_widths_def)
  qed
  from ex big total show ?thesis by blast
qed

theorem to_bytes_overflow_witness:
  "is_valid \<lparr>flatbuffer_offset = 4294967296, flatbuffer_size = 1, bytes_offset = 4294967297,
             bytes_size = 0\<rparr>
   \<and> to_bytes \<lparr>flatbuffer_offset = 4294967296, flatbuffer_size = 1, bytes_offset = 4294967297,
                bytes_size = 0\<rparr> = Inl OverflowError
   \<and> is_valid \<lparr>flatbuffer_offset = 30, flatbuffer_size = 16, bytes_offset = 48,
                bytes_size = 18446744073709551616\<rparr>
   \<and> to_bytes \<lparr>flatbuffer_offset = 30, flatbuffer_size = 16, bytes_offset = 48,
                bytes_size = 18446744073709551616\<rparr> = Inl OverflowError
   \<and> to_bytes \<lparr>flatbuffer_offset = 30, flatbuffer_size = 16, bytes_offset = 48,
                bytes_size = 18446744073709551615\<rparr>
       = Inr [0, 0, 0, 0, 0x56, 0x48, 0x30, 0x30, 30, 0, 30, 0, 0, 0, 16, 0, 0, 0, 48, 0, 0, 0,
              255, 255, 255, 255, 255, 255, 255, 255]
   \<and> is_valid \<lparr>flatbuffer_offset = 30, flatbuffer_size = 16, bytes_offset = 48,
                bytes_size = 18446744073709551615\<rparr>"
proof -
  have enc: "to_bytes \<lparr>flatbuffer_offset = 30, flatbuffer_size = 16, bytes_offset = 48,
                bytes_size = 18446744073709551615\<rparr>
       = Inr [0, 0, 0, 0, 0x56, 0x48, 0x30, 0x30, 30, 0, 30, 0, 0, 0, 16, 0, 0, 0, 48, 0, 0, 0,
              255, 255, 255, 255, 255, 255, 255, 255]"
    by code_simp
  show ?thesis
    using to_bytes_overflow [of "\<lparr>flatbuffer_offset = 4294967296, flatbuffer_size = 1,
        bytes_offset = 4294967297, bytes_size = 0\<rparr>"]
      to_bytes_overflow [of "\<lparr>flatbuffer_offset = 30, flatbuffer_size = 16, bytes_offset = 48,
        bytes_size = 18446744073709551616\<rparr>"]
      to_bytes_overflow [of "\<lparr>flatbuffer_offset = 30, flatbuffer_size = 16, bytes_offset = 48,
        bytes_size = 18446744073709551615\<rparr>"
        "[0, 0, 0, 0, 0x56, 0x48, 0x30, 0x30, 30, 0, 30, 0, 0, 0, 16, 0, 0, 0, 48, 0, 0, 0,
              255, 255, 255, 255, 255, 255, 255, 255]"] enc
    by (simp add: is_valid_iff)
qed

text \<open>
  Claim C10 (parsed fields are unsigned). Every header returned by \<open>from_bytes\<close> has
  its four fields non-negative; for such a header the test \<open>bytes_size < 0\<close> of
  \<open>is_valid\<close> is never taken, and \<open>is_valid\<close> is decided by the other two tests.
\<close>

theorem from_bytes_fields_nonneg:
  assumes "from_bytes data = Inr h"
  shows "0 \<le> flatbuffer_offset h \<and> 0 \<le> flatbuffer_size h \<and> 0 \<le> bytes_offset h
         \<and> 0 \<le> bytes_size h \<and> \<not> bytes_size h < 0
         \<and> (is_valid h \<longleftrightarrow> 0 < flatbuffer_size h
              \<and> flatbuffer_offset h + flatbuffer_size h \<le> bytes_offset h)"
proof -
  from assms have "0 \<le> flatbuffer_offset h" "0 \<le> flatbuffer_size h" "0 \<le> bytes_offset h"
    "0 \<le> bytes_size h"
    by (simp_all add: from_bytes_Inr_iff int_from_bytes_nonneg)
  then show ?thesis by (simp add: is_valid_iff)
qed

theorem from_bytes_fields_nonneg_witness:
  "from_bytes [0, 0, 0, 0, 0x56, 0x48, 0x30, 0x30, 30, 0, 255, 255, 255, 255, 1, 0, 0, 0,
               0, 0, 0, 0, 255, 255, 255, 255, 255, 255, 255, 255]
     = Inr \<lparr>flatbuffer_offset = 4294967295, flatbuffer_size = 1, bytes_offset = 0,
            bytes_size = 18446744073709551615\<rparr>
   \<and> \<not> is_valid \<lparr>flatbuffer_offset = 4294967295, flatbuffer_size = 1, bytes_offset = 0,
            bytes_size = 18446744073709551615\<rparr>"
proof -
  have dec: "from_bytes [0, 0, 0, 0, 0x56, 0x48, 0x30, 0x30, 30, 0, 255, 255, 255, 255, 1, 0, 0, 0,
               0, 0, 0, 0, 255, 255, 255, 255, 255, 255, 255, 255]
     = Inr \<lparr>flatbuffer_offset = 4294967295, flatbuffer_size = 1, bytes_offset = 0,
            bytes_size = 18446744073709551615\<rparr>"
    by code_simp
  from from_bytes_fields_nonneg [OF dec] dec show ?thesis by simp
qed

section \<open>Resolving the base of a view\<close>

lemma resolve_base_le: "resolve_base g v \<le> v"
proof (induction g v rule: resolve_base.induct)
  case (1 g v)
  show ?case
  proof (cases "v < length g \<and> is_view (g ! v)")
    case False
    then show ?thesis by (subst resolve_base.simps) auto
  next
    case True
    show ?thesis
    proof (cases "args (g ! v)")
      case Nil
      with True show ?thesis by (subst resolve_base.simps) simp
    next
      case (Cons a as)
      show ?thesis
      proof (cases "a < v")
        case False
        with True Cons show ?thesis by (subst resolve_base.simps) simp
      next
        case lt: True
        from "1.IH" [OF True Cons lt] have "resolve_base g a \<le> a" .
        with True Cons lt show ?thesis by (subst resolve_base.simps) simp
      qed
    qed
  qed
qed

lemma resolve_base_not_view: "\<not> (v < length g \<and> is_view (g ! v)) \<Longrightarrow> resolve_base g v = v"
  by (subst resolve_base.simps) auto

lemma resolve_base_view:
  "v < length g \<Longrightarrow> is_view (g ! v) \<Longrightarrow> args (g ! v) = a # as \<Longrightarrow> a < v
   \<Longrightarrow> resolve_base g v = resolve_base g a"
  by (subst resolve_base.simps) simp

lemma wf_graph_args:
  "wf_graph g \<Longrightarrow> i < length g \<Longrightarrow> a \<in> set (args (g ! i)) \<Longrightarrow> a < i"
  by (auto simp: wf_graph_def)

lemma wf_graph_view_args:
  "wf_graph g \<Longrightarrow> i < length g \<Longrightarrow> is_view (g ! i) \<Longrightarrow> \<exists>a as. args (g ! i) = a # as \<and> a < i"
  by (cases "args (g ! i)") (auto simp: wf_graph_def)

lemma resolve_base_wf:
  "wf_graph g \<Longrightarrow> v < length g \<Longrightarrow> \<not> is_view (g ! resolve_base g v)"
proof (induction v rule: less_induct)
  case (less v)
  show ?case
  proof (cases "is_view (g ! v)")
    case False
    with less.prems show ?thesis by (simp add: resolve_base_not_view)
  next
    case True
    from wf_graph_view_args [OF less.prems True] obtain a as
      where a: "args (g ! v) = a # as" "a < v" by blast
    with less.prems have "a < length g" by simp
    with less.IH [OF a(2) less.prems(1)] have "\<not> is_view (g ! resolve_base g a)" by simp
    with resolve_base_view [OF less.prems(2) True a] show ?thesis by simp
  qed
qed

lemma resolve_base_less:
  "wf_graph g \<Longrightarrow> v < length g \<Longrightarrow> is_view (g ! v) \<Longrightarrow> resolve_base g v < v"
proof -
  assume wf: "wf_graph g" and v: "v < length g" and iv: "is_view (g ! v)"
  from wf_graph_view_args [OF wf v iv] obtain a as
    where a: "args (g ! v) = a # as" "a < v" by blast
  have "resolve_base g a \<le> a" by (rule resolve_base_le)
  with resolve_base_view [OF v iv a] a(2) show ?thesis by simp
qed

lemma same_links_resolve: "same_links g g' \<Longrightarrow> resolve_base g' v = resolve_base g v"
proof (induction v rule: less_induct)
  case (less v)
  show ?case
  proof (cases "v < length g \<and> is_view (g ! v)")
    case False
    with less.prems have "\<not> (v < length g' \<and> is_view (g' ! v))"
      by (auto simp: same_links_def)
    with False show ?thesis by (simp add: resolve_base_not_view)
  next
    case True
    with less.prems have T': "v < length g'" "is_view (g' ! v)" "args (g' ! v) = args (g ! v)"
      by (auto simp: same_links_def)
    show ?thesis
    proof (cases "args (g ! v)")
      case Nil
      with True T' show ?thesis
        by (subst resolve_base.simps, subst (2) resolve_base.simps) simp
    next
      case (Cons a as)
      show ?thesis
      proof (cases "a < v")
        case False
        with True T' Cons show ?thesis
          by (subst resolve_base.simps, subst (2) resolve_base.simps) simp
      next
        case lt: True
        from less.IH [OF lt less.prems] have "resolve_base g' a = resolve_base g a" .
        moreover have "resolve_base g v = resolve_base g a"
          using True Cons lt by (simp add: resolve_base_view)
        moreover have "resolve_base g' v = resolve_base g' a"
          using T' Cons lt by (simp add: resolve_base_view)
        ultimately show ?thesis by simp
      qed
    qed
  qed
qed

lemma same_links_wf: "same_links g g' \<Longrightarrow> wf_graph g \<Longrightarrow> wf_graph g'"
  by (simp add: same_links_def wf_graph_def)

lemma same_links_refl: "same_links g g"
  by (simp add: same_links_def)

lemma same_links_trans: "same_links g g1 \<Longrightarrow> same_links g1 g2 \<Longrightarrow> same_links g g2"
  by (simp add: same_links_def)

section \<open>What the view-elision pass preserves\<close>

lemma elide_node_other: "target (g ! i) \<noteq> view_copy \<Longrightarrow> elide_node i g = Inr g"
  by (simp add: elide_node_def)

lemma elide_node_view:
  assumes wf: "wf_graph g" and i: "i < length g" and t: "target (g ! i) = view_copy"
    and ok: "elide_node i g = Inr g1"
  defines "b \<equiv> resolve_base g i"
  shows "b < i" and "\<not> is_view (g ! b)" and "i \<le> last_use g b"
    and "g1 = g[b := (g ! b)\<lparr>spec := extend_lifetime (last_use g i) (spec (g ! b))\<rparr>,
                i := (g ! i)\<lparr>target := MemoryView\<rparr>]"
proof -
  from t have iv: "is_view (g ! i)" by (simp add: is_view_def)
  from wf_graph_view_args [OF wf i iv] obtain a as
    where a: "args (g ! i) = a # as" "a < i" by blast
  have ba: "b = resolve_base g a"
    unfolding b_def using i iv a by (rule resolve_base_view)
  show lt: "b < i" unfolding b_def using wf i iv by (rule resolve_base_less)
  show "\<not> is_view (g ! b)" unfolding b_def using wf i by (rule resolve_base_wf)
  from ok t a ba show "i \<le> last_use g b"
    by (auto simp: elide_node_def Let_def last_use_def split: if_splits)
  from lt have "g[b := x] ! i = g ! i" for x by simp
  with ok t a ba show "g1 = g[b := (g ! b)\<lparr>spec := extend_lifetime (last_use g i) (spec (g ! b))\<rparr>,
                i := (g ! i)\<lparr>target := MemoryView\<rparr>]"
    by (auto simp: elide_node_def Let_def last_use_def split: if_splits)
qed

lemma elided_from_refl: "elided_from g g"
  by (simp add: elided_from_def last_use_def)

lemma elided_from_trans:
  assumes "elided_from g g1" "elided_from g1 g2"
  shows "elided_from g g2"
  unfolding elided_from_def
proof (intro conjI allI impI)
  show "length g2 = length g" using assms by (simp add: elided_from_def)
next
  fix j assume j: "j < length g"
  with assms have j1: "j < length g1" by (simp add: elided_from_def)
  note A = assms(1)[unfolded elided_from_def, THEN conjunct2, rule_format, OF j]
  note B = assms(2)[unfolded elided_from_def, THEN conjunct2, rule_format, OF j1]
  show "name (g2 ! j) = name (g ! j)" using A B by simp
  show "args (g2 ! j) = args (g ! j)" using A B by simp
  show "is_view (g2 ! j) = is_view (g ! j)" using A B by simp
  show "target (g2 ! j) = target (g ! j) \<or> target (g ! j) = view_copy \<and> target (g2 ! j) = MemoryView"
    using A B by (auto simp: view_copy_def)
  show "spec (g2 ! j) = (spec (g ! j))\<lparr>lifetime := (fst (lifetime (spec (g ! j))), last_use g2 j)\<rparr>"
    using A B by simp
  show "last_use g j \<le> last_use g2 j" using A B by simp
  show "is_view (g ! j) \<Longrightarrow> last_use g2 j = last_use g j" using A B by simp
qed

lemma elided_from_same_links: "elided_from g g' \<Longrightarrow> same_links g g'"
  by (simp add: elided_from_def same_links_def)

lemma elide_node_elided_from:
  assumes wf: "wf_graph g" and i: "i < length g" and ok: "elide_node i g = Inr g1"
  shows "elided_from g g1"
proof (cases "target (g ! i) = view_copy")
  case False
  with ok have "g1 = g" by (simp add: elide_node_def)
  then show ?thesis by (simp add: elided_from_refl)
next
  case True
  note V = elide_node_view [OF wf i True ok]
  let ?b = "resolve_base g i"
  from V(1) i have b: "?b < length g" "?b \<noteq> i" by simp_all
  have nth: "g1 ! j = (if j = i then (g ! i)\<lparr>target := MemoryView\<rparr>
                       else if j = ?b then (g ! ?b)\<lparr>spec := extend_lifetime (last_use g i) (spec (g ! ?b))\<rparr>
                       else g ! j)" if "j < length g" for j
    using that b by (simp add: V(4) nth_list_update)
  show ?thesis
    unfolding elided_from_def
  proof (intro conjI allI impI)
    show "length g1 = length g" by (simp add: V(4))
  next
    fix j assume j: "j < length g"
    show "name (g1 ! j) = name (g ! j)" by (simp add: nth [OF j])
    show "args (g1 ! j) = args (g ! j)" by (simp add: nth [OF j])
    show "is_view (g1 ! j) = is_view (g ! j)"
      using True by (simp add: nth [OF j] is_view_def)
    show "target (g1 ! j) = target (g ! j) \<or> target (g ! j) = view_copy \<and> target (g1 ! j) = MemoryView"
      using True by (simp add: nth [OF j])
    show "spec (g1 ! j) = (spec (g ! j))\<lparr>lifetime := (fst (lifetime (spec (g ! j))), last_use g1 j)\<rparr>"
      by (simp add: nth [OF j] last_use_def extend_lifetime_def)
    show "last_use g j \<le> last_use g1 j"
      by (simp add: nth [OF j] last_use_def extend_lifetime_def)
    show "is_view (g ! j) \<Longrightarrow> last_use g1 j = last_use g j"
      using V(2) by (auto simp add: nth [OF j] last_use_def extend_lifetime_def)
  qed
qed

lemma elide_nodes_elided_from:
  "wf_graph g \<Longrightarrow> set ns \<subseteq> {0..<length g} \<Longrightarrow> elide_nodes ns g = Inr g' \<Longrightarrow> elided_from g g'"
proof (induction ns arbitrary: g)
  case Nil
  then show ?case by (simp add: elided_from_refl)
next
  case (Cons i ns)
  from Cons.prems(3) obtain g1 where g1: "elide_node i g = Inr g1" and rest: "elide_nodes ns g1 = Inr g'"
    by (auto split: sum.splits)
  from Cons.prems(2) have i: "i < length g" by simp
  have e1: "elided_from g g1" using Cons.prems(1) i g1 by (rule elide_node_elided_from)
  then have "wf_graph g1" "length g1 = length g"
    using Cons.prems(1) same_links_wf elided_from_same_links by (auto simp: elided_from_def)
  with Cons.prems(2) have "elided_from g1 g'"
    using Cons.IH [OF _ _ rest] by simp
  with e1 show ?case by (rule elided_from_trans)
qed

lemma elide_nodes_append:
  "elide_nodes (xs @ ys) g =
     (case elide_nodes xs g of Inl e \<Rightarrow> Inl e | Inr g1 \<Rightarrow> elide_nodes ys g1)"
  by (induction xs arbitrary: g) (auto split: sum.splits)

lemma elide_node_target_other:
  assumes "elide_node i g = Inr g1" and "j \<noteq> i"
  shows "target (g1 ! j) = target (g ! j)"
proof (cases "target (g ! i) = view_copy")
  case False
  with assms show ?thesis by (simp add: elide_node_def)
next
  case True
  have upd: "target (g[b := (g ! b)\<lparr>spec := s\<rparr>] ! j) = target (g ! j)" for b s
    by (cases "b < length g") (simp_all add: nth_list_update list_update_beyond)
  from assms True show ?thesis
    by (auto simp: elide_node_def Let_def upd split: list.splits if_splits)
qed

lemma remove_view_copy_elided_from:
  "wf_graph g \<Longrightarrow> remove_view_copy g = Inr g' \<Longrightarrow> elided_from g g'"
  using elide_nodes_elided_from [of g "[0..<length g]" g'] by (simp add: remove_view_copy_def)

section \<open>The lifetime of a base after the pass\<close>

lemma elide_node_last_use:
  assumes wf: "wf_graph g" and i: "i < length g" and ok: "elide_node i g = Inr g1"
    and j: "j < length g"
  shows "last_use g1 j =
           (if target (g ! i) = view_copy \<and> resolve_base g i = j
            then max (last_use g j) (last_use g i) else last_use g j)"
proof (cases "target (g ! i) = view_copy")
  case False
  with ok have "g1 = g" by (simp add: elide_node_def)
  with False show ?thesis by simp
next
  case True
  note V = elide_node_view [OF wf i True ok]
  from V(1) i have b: "resolve_base g i < length g" "resolve_base g i \<noteq> i" by simp_all
  from True have "is_view (g ! i)" by (simp add: is_view_def)
  with V(2) b i j True show ?thesis
    by (auto simp: V(4) nth_list_update last_use_def extend_lifetime_def)
qed

lemma Max_insert_max:
  "finite S \<Longrightarrow> Max (insert (max x y) S) = Max (insert (x::nat) (insert y S))"
  by (cases "S = {}") (simp_all add: max.assoc)

lemma elide_nodes_last_use:
  "wf_graph g \<Longrightarrow> distinct ns \<Longrightarrow> set ns \<subseteq> {0..<length g} \<Longrightarrow> elide_nodes ns g = Inr g'
   \<Longrightarrow> b < length g \<Longrightarrow> \<not> is_view (g ! b)
   \<Longrightarrow> last_use g' b =
         Max (insert (last_use g b)
               (last_use g ` {u \<in> set ns. target (g ! u) = view_copy \<and> resolve_base g u = b}))"
proof (induction ns arbitrary: g)
  case Nil
  then show ?case by simp
next
  case (Cons i ns)
  from Cons.prems(4) obtain g1 where g1: "elide_node i g = Inr g1" and rest: "elide_nodes ns g1 = Inr g'"
    by (auto split: sum.splits)
  from Cons.prems(3) have i: "i < length g" and ns: "set ns \<subseteq> {0..<length g}" by simp_all
  from Cons.prems(2) have ni: "i \<notin> set ns" and dns: "distinct ns" by simp_all
  have e1: "elided_from g g1" using Cons.prems(1) i g1 by (rule elide_node_elided_from)
  then have sl: "same_links g g1" by (rule elided_from_same_links)
  from e1 have len: "length g1 = length g" by (simp add: elided_from_def)
  from sl Cons.prems(1) have wf1: "wf_graph g1" by (rule same_links_wf)
  from e1 Cons.prems(5,6) have nv1: "\<not> is_view (g1 ! b)" by (simp add: elided_from_def)
  let ?P = "\<lambda>g u. target (g ! u) = view_copy \<and> resolve_base g u = b"
  have same: "?P g1 u = ?P g u" if "u \<in> set ns" for u
  proof -
    from that ni have "u \<noteq> i" by auto
    from elide_node_target_other [OF g1 this] same_links_resolve [OF sl, of u]
    show ?thesis by simp
  qed
  have lu: "last_use g1 u = last_use g u" if "u \<in> set ns" "?P g u" for u
  proof -
    from that ns have "u < length g" "is_view (g ! u)" by (auto simp: is_view_def)
    with e1 show ?thesis by (simp add: elided_from_def)
  qed
  have "{u \<in> set ns. ?P g1 u} = {u \<in> set ns. ?P g u}"
    using same by blast
  moreover have "last_use g1 ` {u \<in> set ns. ?P g u} = last_use g ` {u \<in> set ns. ?P g u}"
    by (rule image_cong) (use lu in auto)
  ultimately have img: "last_use g1 ` {u \<in> set ns. ?P g1 u} = last_use g ` {u \<in> set ns. ?P g u}"
    by simp
  have IH: "last_use g' b = Max (insert (last_use g1 b) (last_use g ` {u \<in> set ns. ?P g u}))"
    using Cons.IH [OF wf1 dns _ rest _ nv1] ns Cons.prems(5) len img by simp
  have fin: "finite (last_use g ` {u \<in> set ns. ?P g u})" by simp
  show ?case
  proof (cases "?P g i")
    case True
    then have "{u \<in> set (i # ns). ?P g u} = insert i {u \<in> set ns. ?P g u}" by auto
    moreover from True have "last_use g1 b = max (last_use g b) (last_use g i)"
      using elide_node_last_use [OF Cons.prems(1) i g1 Cons.prems(5)] by simp
    ultimately show ?thesis
      using IH Max_insert_max [OF fin] by simp
  next
    case False
    then have "{u \<in> set (i # ns). ?P g u} = {u \<in> set ns. ?P g u}" by auto
    moreover from False have "last_use g1 b = last_use g b"
      using elide_node_last_use [OF Cons.prems(1) i g1 Cons.prems(5)] by auto
    ultimately show ?thesis using IH by simp
  qed
qed

lemma remove_view_copy_last_use:
  assumes "wf_graph g" "remove_view_copy g = Inr g'" "b < length g" "\<not> is_view (g ! b)"
  shows "last_use g' b = Max (insert (last_use g b) (last_use g ` alias_group g b))"
proof -
  have "{u \<in> set [0..<length g]. target (g ! u) = view_copy \<and> resolve_base g u = b} = alias_group g b"
    by (auto simp: alias_group_def)
  with elide_nodes_last_use [of g "[0..<length g]" g' b] assms show ?thesis
    by (simp add: remove_view_copy_def)
qed

lemma remove_view_copy_target:
  assumes wf: "wf_graph g" and ok: "remove_view_copy g = Inr g'" and v: "v < length g"
    and t: "target (g ! v) = view_copy"
  shows "target (g' ! v) = MemoryView"
    and "\<exists>g0 g1. elide_nodes [0..<v] g = Inr g0 \<and> elide_node v g0 = Inr g1
           \<and> elide_nodes [Suc v..<length g] g1 = Inr g'
           \<and> elided_from g g0
           \<and> target (g0 ! v) = view_copy
           \<and> last_use g1 (resolve_base g v) = max (last_use g0 (resolve_base g v)) (last_use g v)"
proof -
  from v have split: "[0..<length g] = [0..<v] @ v # [Suc v..<length g]"
    by (metis less_imp_add_positive upt_add_eq_append upt_conv_Cons zero_le)
  from ok obtain g0 g1 where g0: "elide_nodes [0..<v] g = Inr g0"
    and g1: "elide_node v g0 = Inr g1" and g2: "elide_nodes [Suc v..<length g] g1 = Inr g'"
    unfolding remove_view_copy_def split elide_nodes_append
    by (auto split: sum.splits)
  from v have e0: "elided_from g g0"
    using elide_nodes_elided_from [OF wf _ g0] by auto
  then have sl0: "same_links g g0" and len0: "length g0 = length g"
    by (simp_all add: elided_from_same_links elided_from_def)
  from sl0 wf have wf0: "wf_graph g0" by (rule same_links_wf)
  have t0: "target (g0 ! v) = view_copy"
  proof -
    have "\<And>g'. elide_nodes ns g = Inr g' \<Longrightarrow> v \<notin> set ns \<Longrightarrow> target (g' ! v) = target (g ! v)"
      for ns g
    proof (induction ns arbitrary: g)
      case Nil
      then show ?case by simp
    next
      case (Cons i ns)
      from Cons.prems(1) obtain h where h: "elide_node i g = Inr h" "elide_nodes ns h = Inr g'"
        by (auto split: sum.splits)
      from Cons.prems(2) have "v \<noteq> i" "v \<notin> set ns" by auto
      with Cons.IH [OF h(2)] elide_node_target_other [OF h(1), of v] show ?case by simp
    qed
    from this [OF g0] t show ?thesis by simp
  qed
  from v len0 have v0: "v < length g0" by simp
  note V = elide_node_view [OF wf0 v0 t0 g1]
  have rb: "resolve_base g0 v = resolve_base g v" using sl0 by (rule same_links_resolve)
  from t have iv: "is_view (g ! v)" by (simp add: is_view_def)
  with e0 v have lv: "last_use g0 v = last_use g v" by (simp add: elided_from_def)
  from V(1) v0 have "resolve_base g0 v < length g0" by simp
  from elide_node_last_use [OF wf0 v0 g1 this] t0
  have step: "last_use g1 (resolve_base g v) = max (last_use g0 (resolve_base g v)) (last_use g v)"
    by (simp add: rb lv)
  from g0 g1 g2 e0 t0 step
  show "\<exists>g0 g1. elide_nodes [0..<v] g = Inr g0 \<and> elide_node v g0 = Inr g1
           \<and> elide_nodes [Suc v..<length g] g1 = Inr g'
           \<and> elided_from g g0
           \<and> target (g0 ! v) = view_copy
           \<and> last_use g1 (resolve_base g v) = max (last_use g0 (resolve_base g v)) (last_use g v)"
    by blast
  have t1: "target (g1 ! v) = MemoryView"
    using V(1) v0 by (simp add: V(4))
  have e1: "elided_from g0 g1" using wf0 v0 g1 by (rule elide_node_elided_from)
  then have wf1: "wf_graph g1" and len1: "length g1 = length g0"
    using wf0 same_links_wf elided_from_same_links by (auto simp: elided_from_def)
  have "elided_from g1 g'"
    using elide_nodes_elided_from [OF wf1 _ g2] len1 len0 by auto
  with v len0 len1 have "target (g' ! v) = target (g1 ! v)
      \<or> target (g1 ! v) = view_copy \<and> target (g' ! v) = MemoryView"
    by (simp add: elided_from_def)
  with t1 show "target (g' ! v) = MemoryView" by auto
qed

section \<open>The pass succeeds on consistent lifetimes\<close>

lemma elide_nodes_prefix_succeeds:
  assumes wf: "wf_graph g" and cov: "lifetimes_cover_uses g"
  shows "n \<le> length g \<Longrightarrow> \<exists>gn. elide_nodes [0..<n] g = Inr gn"
proof (induction n)
  case 0
  then show ?case by simp
next
  case (Suc n)
  then have n: "n < length g" by simp
  from Suc obtain gn where gn: "elide_nodes [0..<n] g = Inr gn" by auto
  have ef: "elided_from g gn"
    using elide_nodes_elided_from [OF wf _ gn] n by auto
  then have sl: "same_links g gn" and len: "length gn = length g"
    by (simp_all add: elided_from_same_links elided_from_def)
  note En = ef [unfolded elided_from_def, THEN conjunct2, rule_format, OF n]
  have "\<exists>g1. elide_node n gn = Inr g1"
  proof (cases "target (gn ! n) = view_copy")
    case False
    then show ?thesis by (simp add: elide_node_def)
  next
    case True
    with En have iv: "is_view (g ! n)" by (simp add: is_view_def)
    from wf_graph_view_args [OF wf n iv] obtain a as
      where a: "args (g ! n) = a # as" "a < n" by blast
    let ?b = "resolve_base g a"
    have ba: "?b \<le> a" by (rule resolve_base_le)
    with a n have bl: "?b < length g" and al: "a < length g" by simp_all
    have nb: "\<not> is_view (g ! ?b)" using wf al by (rule resolve_base_wf)
    from cov n a have use: "n \<le> last_use g a"
      by (auto simp: lifetimes_cover_uses_def)
    let ?S = "last_use g ` {u \<in> set [0..<n]. target (g ! u) = view_copy \<and> resolve_base g u = ?b}"
    have lu: "last_use gn ?b = Max (insert (last_use g ?b) ?S)"
      using elide_nodes_last_use [OF wf _ _ gn bl nb] n by auto
    have "last_use g a \<in> insert (last_use g ?b) ?S"
    proof (cases "is_view (g ! a)")
      case False
      then show ?thesis by (simp add: resolve_base_not_view)
    next
      case True
      moreover from cov al have "target (g ! a) \<noteq> MemoryView"
        by (auto simp: lifetimes_cover_uses_def)
      ultimately have "target (g ! a) = view_copy" by (simp add: is_view_def)
      with a(2) show ?thesis by auto
    qed
    then have "last_use g a \<le> last_use gn ?b"
      unfolding lu by (intro Max_ge) simp_all
    with use have "n \<le> last_use gn ?b" by simp
    moreover have "resolve_base gn a = ?b" using sl by (rule same_links_resolve)
    moreover from En a have "args (gn ! n) = a # as" by simp
    ultimately show ?thesis
      using True by (simp add: elide_node_def Let_def last_use_def)
  qed
  then obtain g1 where "elide_node n gn = Inr g1" by blast
  with gn show ?case
    by (simp add: elide_nodes_append)
qed

lemma remove_view_copy_succeeds:
  "wf_graph g \<Longrightarrow> lifetimes_cover_uses g \<Longrightarrow> \<exists>g'. remove_view_copy g = Inr g'"
  unfolding remove_view_copy_def by (rule elide_nodes_prefix_succeeds) simp_all

section \<open>Memory planning keeps the alias relation\<close>

lemma length_memory_planning [simp]: "length (memory_planning place g) = length g"
  by (simp add: memory_planning_def)

lemma nth_memory_planning:
  "i < length g \<Longrightarrow> memory_planning place g ! i = plan_node place i (g ! i)"
  by (simp add: memory_planning_def)

lemma plan_node_fields [simp]:
  "name (plan_node place i n) = name n"
  "target (plan_node place i n) = target n"
  "args (plan_node place i n) = args n"
  "is_view (plan_node place i n) = is_view n"
  "const (spec (plan_node place i n)) = const (spec n)"
  "storage (spec (plan_node place i n)) = storage (spec n)"
  "lifetime (spec (plan_node place i n)) = lifetime (spec n)"
  "shape (spec (plan_node place i n)) = shape (spec n)"
  "dtype (spec (plan_node place i n)) = dtype (spec n)"
  by (simp_all add: plan_node_def is_view_def)

lemma plan_node_mem:
  "mem_id (spec (plan_node place i n)) =
     (if const (spec n) \<or> target n = MemoryView then mem_id (spec n) else Some (fst (place i)))"
  "mem_offset (spec (plan_node place i n)) =
     (if const (spec n) \<or> target n = MemoryView then mem_offset (spec n) else Some (snd (place i)))"
  by (simp_all add: plan_node_def)

lemma memory_planning_same_links: "same_links g (memory_planning place g)"
  by (simp add: same_links_def nth_memory_planning)

lemma resolve_base_memory_planning [simp]:
  "resolve_base (memory_planning place g) v = resolve_base g v"
  using memory_planning_same_links by (rule same_links_resolve)

lemma spec_of_view:
  "target (g ! v) = MemoryView \<Longrightarrow>
     const (spec_of g v) = const (spec (g ! resolve_base g v))
     \<and> storage (spec_of g v) = storage (spec (g ! resolve_base g v))
     \<and> mem_id (spec_of g v) = mem_id (spec (g ! resolve_base g v))
     \<and> mem_offset (spec_of g v) = mem_offset (spec (g ! resolve_base g v))
     \<and> lifetime (spec_of g v) = lifetime (spec (g ! resolve_base g v))"
  by (simp add: spec_of_def)

lemma spec_of_other: "target (g ! v) \<noteq> MemoryView \<Longrightarrow> spec_of g v = spec (g ! v)"
  by (simp add: spec_of_def)

section \<open>The operator table is in first-seen order\<close>

lemma callees_Cons:
  "callees g (i # ns) = (case callee g i of None \<Rightarrow> callees g ns | Some x \<Rightarrow> x # callees g ns)"
  by (simp add: callees_def map_filter_simps split: option.splits)

lemma callees_cong:
  "(\<And>i. i \<in> set ns \<Longrightarrow> callee g' i = callee g i) \<Longrightarrow> callees g' ns = callees g ns"
proof (induction ns)
  case Nil
  show ?case by (simp add: callees_def map_filter_simps)
next
  case (Cons i ns)
  then show ?case by (simp add: callees_Cons split: option.splits)
qed

lemma callee_memory_planning:
  assumes wf: "wf_graph g" and i: "i < length g"
  shows "callee (memory_planning place g) i = callee g i"
proof (cases "args (g ! i)")
  case Nil
  with i show ?thesis by (simp add: callee_def nth_memory_planning split: target.splits)
next
  case (Cons a as)
  with wf i have "a < i" by (auto dest: wf_graph_args)
  with i have "shape (spec (memory_planning place g ! a)) = shape (spec (g ! a))"
    by (simp add: nth_memory_planning)
  with i Cons show ?thesis by (simp add: callee_def nth_memory_planning split: target.splits)
qed

lemma emit_node_memory_planning:
  "wf_graph g \<Longrightarrow> i < length g \<Longrightarrow> emit_node (memory_planning place g) i = emit_node g i"
  by (rule ext)
    (simp add: emit_node_def callee_memory_planning nth_memory_planning split: option.splits)

lemma emit_memory_planning: "wf_graph g \<Longrightarrow> emit (memory_planning place g) = emit g"
  unfolding emit_def
  by (rule fold_cong) (simp_all add: emit_node_memory_planning)

lemma callees_memory_planning:
  "wf_graph g \<Longrightarrow> callees (memory_planning place g) [0..<length g] = callees g [0..<length g]"
  by (rule callees_cong) (simp add: callee_memory_planning)

lemma index_of_None: "index_of x xs = None \<longleftrightarrow> x \<notin> set xs"
  by (induction xs) auto

lemma index_of_Some: "index_of x xs = Some k \<Longrightarrow> k < length xs \<and> xs ! k = x"
  by (induction xs arbitrary: k) (auto split: if_splits)

lemma remdups_snoc: "remdups (xs @ [x]) = [y \<leftarrow> remdups xs. y \<noteq> x] @ [x]"
  by (induction xs) auto

lemma first_seen_Cons:
  "rev (remdups (rev (x # xs))) = x # rev (remdups (rev [y \<leftarrow> xs. y \<noteq> x]))"
proof -
  have "rev (remdups (rev (x # xs))) = rev (remdups (rev xs @ [x]))" by simp
  also have "\<dots> = x # rev [y \<leftarrow> remdups (rev xs). y \<noteq> x]"
    by (simp only: remdups_snoc rev_append rev.simps append_Nil append_Cons)
  also have "[y \<leftarrow> remdups (rev xs). y \<noteq> x] = remdups (rev [y \<leftarrow> xs. y \<noteq> x])"
    by (simp only: remdups_filter rev_filter)
  finally show ?thesis .
qed

lemma first_seen_step:
  assumes "x \<notin> set tbl"
  shows "tbl @ rev (remdups (rev [y \<leftarrow> x # cs. y \<notin> set tbl]))
           = (tbl @ [x]) @ rev (remdups (rev [y \<leftarrow> cs. y \<notin> set (tbl @ [x])]))"
proof -
  have f: "[y \<leftarrow> cs. y \<notin> set (tbl @ [x])] = [y \<leftarrow> [y \<leftarrow> cs. y \<notin> set tbl]. y \<noteq> x]"
    by (induction cs) auto
  from assms have "[y \<leftarrow> x # cs. y \<notin> set tbl] = x # [y \<leftarrow> cs. y \<notin> set tbl]" by simp
  then have "rev (remdups (rev [y \<leftarrow> x # cs. y \<notin> set tbl]))
               = x # rev (remdups (rev [y \<leftarrow> cs. y \<notin> set (tbl @ [x])]))"
    by (simp only: first_seen_Cons f)
  then show ?thesis by simp
qed

lemma emit_node_None: "callee g i = None \<Longrightarrow> emit_node g i plan = plan"
  by (simp add: emit_node_def)

lemma emit_node_seen:
  assumes "callee g i = Some x" and "x \<in> set (operators plan)"
  shows "operators (emit_node g i plan) = operators plan"
    and "length (instructions (emit_node g i plan)) = Suc (length (instructions plan))"
proof -
  from assms(2) obtain k where "index_of x (operators plan) = Some k"
    using index_of_None [of x "operators plan"] by auto
  with assms(1) show "operators (emit_node g i plan) = operators plan"
    and "length (instructions (emit_node g i plan)) = Suc (length (instructions plan))"
    by (simp_all add: emit_node_def)
qed

lemma emit_node_new:
  assumes "callee g i = Some x" and "x \<notin> set (operators plan)"
  shows "operators (emit_node g i plan) = operators plan @ [x]"
    and "length (instructions (emit_node g i plan)) = Suc (length (instructions plan))"
proof -
  from assms(2) have "index_of x (operators plan) = None" by (simp add: index_of_None)
  with assms(1) show "operators (emit_node g i plan) = operators plan @ [x]"
    and "length (instructions (emit_node g i plan)) = Suc (length (instructions plan))"
    by (simp_all add: emit_node_def)
qed

lemma emit_nodes_operators:
  "operators (fold (emit_node g) ns plan)
     = operators plan @ rev (remdups (rev [x \<leftarrow> callees g ns. x \<notin> set (operators plan)]))"
proof (induction ns arbitrary: plan)
  case Nil
  then show ?case by (simp add: callees_def map_filter_simps)
next
  case (Cons i ns)
  have step: "operators (fold (emit_node g) (i # ns) plan)
      = operators (emit_node g i plan)
        @ rev (remdups (rev [x \<leftarrow> callees g ns. x \<notin> set (operators (emit_node g i plan))]))"
    by (simp add: Cons.IH)
  show ?case
  proof (cases "callee g i")
    case None
    then show ?thesis unfolding step by (simp add: emit_node_None callees_Cons)
  next
    case (Some x)
    show ?thesis
    proof (cases "x \<in> set (operators plan)")
      case True
      with Some show ?thesis unfolding step by (simp add: emit_node_seen callees_Cons)
    next
      case False
      from Some False have "operators (emit_node g i plan) = operators plan @ [x]"
        by (rule emit_node_new(1))
      moreover from Some have "callees g (i # ns) = x # callees g ns"
        by (simp add: callees_Cons)
      ultimately show ?thesis
        unfolding step using first_seen_step [OF False, of "callees g ns"] by simp
    qed
  qed
qed

lemma emit_operators_first_seen:
  "operators (emit g) = rev (remdups (rev (callees g [0..<length g])))"
  by (simp add: emit_def emit_nodes_operators)

lemma emit_nodes_instructions:
  "length (instructions (fold (emit_node g) ns plan))
     = length (instructions plan) + length (callees g ns)"
proof (induction ns arbitrary: plan)
  case Nil
  then show ?case by (simp add: callees_def map_filter_simps)
next
  case (Cons i ns)
  have step: "length (instructions (fold (emit_node g) (i # ns) plan))
      = length (instructions (emit_node g i plan)) + length (callees g ns)"
    by (simp add: Cons.IH)
  show ?case
  proof (cases "callee g i")
    case None
    then show ?thesis unfolding step by (simp add: emit_node_None callees_Cons)
  next
    case (Some x)
    then show ?thesis unfolding step
      by (cases "x \<in> set (operators plan)") (simp_all add: emit_node_seen emit_node_new callees_Cons)
  qed
qed

lemma emit_instructions_length:
  "length (instructions (emit g)) = length (callees g [0..<length g])"
  by (simp add: emit_def emit_nodes_instructions)

section \<open>The graph of the test, evaluated\<close>

lemma test_model_wf: "wf_graph test_model_graph"
  by code_simp

lemma test_model_inv: "\<forall>n \<in> set test_model_graph. spec_inv (spec n)"
  by code_simp

lemma test_model_lifetimes: "lifetimes_cover_uses test_model_graph"
  by code_simp

lemma test_model_pass: "remove_view_copy test_model_graph = Inr test_model_elided"
  by code_simp

lemma test_model_group: "alias_group test_model_graph 0 = {2}" "alias_group test_model_graph 5 = {6}"
  by code_simp+

lemma test_model_resolve: "resolve_base test_model_graph 2 = 0" "resolve_base test_model_graph 6 = 5"
  by code_simp+

lemma wf_test_model_elided: "wf_graph test_model_elided"
  by code_simp

lemma test_model_callees:
  "callees test_model_elided [0..<length test_model_elided]
     = [et_view, et_view, OpIdentity ''aten'' ''mul'' ''out'', et_view]"
  by code_simp

lemma test_model_emit:
  "emit test_model_elided =
     \<lparr>operators = [et_view, OpIdentity ''aten'' ''mul'' ''out''],
      instructions = [\<lparr>op_index = 0, instr_args = [0]\<rparr>, \<lparr>op_index = 0, instr_args = [1]\<rparr>,
         \<lparr>op_index = 1, instr_args = [2, 3, 4]\<rparr>, \<lparr>op_index = 0, instr_args = [5]\<rparr>]\<rparr>"
  by code_simp

text \<open>Chained views collapse onto the same base, whose lifetime covers them all.\<close>

lemma chained_views_collapse:
  "wf_graph chained_views"
  "lifetimes_cover_uses chained_views"
  "resolve_base chained_views 2 = 0"
  "case remove_view_copy chained_views of
     Inl e \<Rightarrow> False
   | Inr g \<Rightarrow> resolve_base g 2 = 0 \<and> lifetime (spec_of g 0) = (0, 9)
       \<and> lifetime (spec_of g 1) = (0, 9) \<and> lifetime (spec_of g 2) = (0, 9)
       \<and> const (spec_of g 2) \<and> storage (spec_of g 2) = Some 0"
  by code_simp+

section \<open>The claims about view elision and emission\<close>

text \<open>
  Claim C6 (alias equivalence). Let \<open>v\<close> be a view node of a well-formed graph whose
  specs satisfy the invariant, \<open>b\<close> its transitively resolved base, \<open>g'\<close> the graph after
  the view-elision pass and \<open>p\<close> the graph after memory planning. Then \<open>b\<close> is an earlier
  node that is not a view, and \<open>v\<close> is an alias that resolves to \<open>b\<close>. The spec of \<open>v\<close>
  equals the spec of \<open>b\<close> in \<open>const\<close>, \<open>storage\<close>, \<open>mem_id\<close>, \<open>mem_offset\<close> and
  \<open>lifetime\<close>, after the pass and after planning. The last use of \<open>b\<close> after the pass
  is the maximum of its own and those of the views collapsed onto it; in the step that
  elides \<open>v\<close> it becomes the last use of \<open>v\<close> exactly when that one is later. A view of
  a constant is constant with the storage of its base and has neither \<open>mem_id\<close> nor
  \<open>mem_offset\<close>; a view of a non-constant value has no storage and the one
  \<open>(mem_id, mem_offset)\<close> that the planner gave its base.
\<close>

theorem view_alias_equivalence:
  assumes wf: "wf_graph g" and inv: "\<forall>n \<in> set g. spec_inv (spec n)"
    and ok: "remove_view_copy g = Inr g'"
    and v: "v < length g" and t: "target (g ! v) = view_copy"
    and b: "b = resolve_base g v" and p: "p = memory_planning place g'"
  shows "(b < v \<and> \<not> is_view (g ! b) \<and> \<not> is_view (g' ! b))
    \<and> (target (g' ! v) = MemoryView \<and> resolve_base g' v = b)
    \<and> (const (spec_of g' v) = const (spec_of g' b) \<and> storage (spec_of g' v) = storage (spec_of g' b)
        \<and> mem_id (spec_of g' v) = mem_id (spec_of g' b)
        \<and> mem_offset (spec_of g' v) = mem_offset (spec_of g' b)
        \<and> lifetime (spec_of g' v) = lifetime (spec_of g' b))
    \<and> (const (spec_of p v) = const (spec_of p b) \<and> storage (spec_of p v) = storage (spec_of p b)
        \<and> mem_id (spec_of p v) = mem_id (spec_of p b)
        \<and> mem_offset (spec_of p v) = mem_offset (spec_of p b)
        \<and> lifetime (spec_of p v) = lifetime (spec_of p b))
    \<and> lifetime (spec_of g' b)
         = (fst (lifetime (spec (g ! b))), Max (insert (last_use g b) (last_use g ` alias_group g b)))
    \<and> (\<exists>g0 g1. elide_nodes [0..<v] g = Inr g0 \<and> elide_node v g0 = Inr g1
          \<and> elide_nodes [Suc v..<length g] g1 = Inr g'
          \<and> last_use g1 b = (if last_use g0 b < last_use g v then last_use g v else last_use g0 b))
    \<and> (const (spec (g ! b)) \<longrightarrow>
          const (spec_of p v) \<and> storage (spec_of p v) = storage (spec (g ! b))
          \<and> storage (spec_of p v) \<noteq> None
          \<and> mem_id (spec_of p v) = None \<and> mem_offset (spec_of p v) = None)
    \<and> (\<not> const (spec (g ! b)) \<longrightarrow>
          \<not> const (spec_of p v) \<and> storage (spec_of p v) = None
          \<and> mem_id (spec_of p v) = Some (fst (place b)) \<and> mem_offset (spec_of p v) = Some (snd (place b))
          \<and> mem_id (spec_of p b) = Some (fst (place b)) \<and> mem_offset (spec_of p b) = Some (snd (place b)))"
proof -
  from t have iv: "is_view (g ! v)" by (simp add: is_view_def)
  have bv: "b < v" unfolding b using wf v iv by (rule resolve_base_less)
  with v have bl: "b < length g" by simp
  have nb: "\<not> is_view (g ! b)" unfolding b using wf v by (rule resolve_base_wf)
  have ef: "elided_from g g'" using wf ok by (rule remove_view_copy_elided_from)
  then have sl: "same_links g g'" by (rule elided_from_same_links)
  from ef have len: "length g' = length g" by (simp add: elided_from_def)
  note Eb = ef [unfolded elided_from_def, THEN conjunct2, rule_format, OF bl]
  from Eb nb have nb': "\<not> is_view (g' ! b)" by simp
  then have tb': "target (g' ! b) \<noteq> MemoryView" by (simp add: is_view_def)
  have tv': "target (g' ! v) = MemoryView" using wf ok v t by (rule remove_view_copy_target(1))
  have rv': "resolve_base g' v = b" unfolding b using sl by (rule same_links_resolve)
  have rb': "resolve_base g' b = b" using nb' by (simp add: resolve_base_not_view)
  have sb': "spec_of g' b = spec (g' ! b)" using tb' by (rule spec_of_other)
  have c1: "b < v \<and> \<not> is_view (g ! b) \<and> \<not> is_view (g' ! b)" using bv nb nb' by simp
  have c2: "target (g' ! v) = MemoryView \<and> resolve_base g' v = b" using tv' rv' by simp
  have c3: "const (spec_of g' v) = const (spec_of g' b) \<and> storage (spec_of g' v) = storage (spec_of g' b)
        \<and> mem_id (spec_of g' v) = mem_id (spec_of g' b)
        \<and> mem_offset (spec_of g' v) = mem_offset (spec_of g' b)
        \<and> lifetime (spec_of g' v) = lifetime (spec_of g' b)"
    using spec_of_view [OF tv'] by (simp add: rv' sb')
  from v bl len have vp: "p ! v = plan_node place v (g' ! v)" and bp: "p ! b = plan_node place b (g' ! b)"
    by (simp_all add: p nth_memory_planning)
  have tvp: "target (p ! v) = MemoryView" using tv' by (simp add: vp)
  have tbp: "target (p ! b) \<noteq> MemoryView" using tb' by (simp add: bp)
  have rvp: "resolve_base p v = b" by (simp add: p rv')
  have sbp: "spec_of p b = spec (p ! b)" using tbp by (rule spec_of_other)
  have c4: "const (spec_of p v) = const (spec_of p b) \<and> storage (spec_of p v) = storage (spec_of p b)
        \<and> mem_id (spec_of p v) = mem_id (spec_of p b)
        \<and> mem_offset (spec_of p v) = mem_offset (spec_of p b)
        \<and> lifetime (spec_of p v) = lifetime (spec_of p b)"
    using spec_of_view [OF tvp] by (simp add: rvp sbp)
  have lu: "last_use g' b = Max (insert (last_use g b) (last_use g ` alias_group g b))"
    using wf ok bl nb by (rule remove_view_copy_last_use)
  have c5: "lifetime (spec_of g' b)
         = (fst (lifetime (spec (g ! b))), Max (insert (last_use g b) (last_use g ` alias_group g b)))"
    using Eb lu by (simp add: sb')
  from remove_view_copy_target(2) [OF wf ok v t] obtain g0 g1
    where steps: "elide_nodes [0..<v] g = Inr g0" "elide_node v g0 = Inr g1"
      "elide_nodes [Suc v..<length g] g1 = Inr g'"
      and m: "last_use g1 b = max (last_use g0 b) (last_use g v)"
    unfolding b by blast
  from m have "last_use g1 b = (if last_use g0 b < last_use g v then last_use g v else last_use g0 b)"
    by (simp add: max_def)
  with steps have c6: "\<exists>g0 g1. elide_nodes [0..<v] g = Inr g0 \<and> elide_node v g0 = Inr g1
          \<and> elide_nodes [Suc v..<length g] g1 = Inr g'
          \<and> last_use g1 b = (if last_use g0 b < last_use g v then last_use g v else last_use g0 b)"
    by blast
  from bl have "g ! b \<in> set g" by simp
  with inv have sinv: "spec_inv (spec (g ! b))" by blast
  from Eb have same: "const (spec (g' ! b)) = const (spec (g ! b))"
    "storage (spec (g' ! b)) = storage (spec (g ! b))"
    "mem_id (spec (g' ! b)) = mem_id (spec (g ! b))"
    "mem_offset (spec (g' ! b)) = mem_offset (spec (g ! b))"
    by (metis (no_types, lifting) TensorSpec.select_convs TensorSpec.surjective TensorSpec.update_convs(3))+
  have c7: "const (spec_of p v) \<and> storage (spec_of p v) = storage (spec (g ! b))
          \<and> storage (spec_of p v) \<noteq> None
          \<and> mem_id (spec_of p v) = None \<and> mem_offset (spec_of p v) = None"
    if "const (spec (g ! b))"
    using that sinv spec_of_view [OF tvp]
    by (auto simp add: rvp bp same plan_node_mem spec_inv_def)
  have c8: "\<not> const (spec_of p v) \<and> storage (spec_of p v) = None
          \<and> mem_id (spec_of p v) = Some (fst (place b)) \<and> mem_offset (spec_of p v) = Some (snd (place b))
          \<and> mem_id (spec_of p b) = Some (fst (place b)) \<and> mem_offset (spec_of p b) = Some (snd (place b))"
    if "\<not> const (spec (g ! b))"
    using that sinv spec_of_view [OF tvp] tb'
    by (auto simp add: rvp sbp bp same plan_node_mem spec_inv_def)
  from c1 c2 c3 c4 c5 c6 c7 c8 show ?thesis by blast
qed

theorem view_alias_equivalence_witness:
  "remove_view_copy test_model_graph = Inr test_model_elided
   \<and> lifetime (spec_of test_model_elided 0) = (0, 5)
   \<and> lifetime (spec_of test_model_elided 2) = (0, 5)
   \<and> const (spec_of (memory_planning (\<lambda>i. (1, 120 * i)) test_model_elided) 2)
   \<and> storage (spec_of (memory_planning (\<lambda>i. (1, 120 * i)) test_model_elided) 2) = Some 0
   \<and> mem_id (spec_of (memory_planning (\<lambda>i. (1, 120 * i)) test_model_elided) 2) = None
   \<and> mem_offset (spec_of (memory_planning (\<lambda>i. (1, 120 * i)) test_model_elided) 2) = None
   \<and> lifetime (spec_of test_model_elided 5) = (4, 7)
   \<and> lifetime (spec_of test_model_elided 6) = (4, 7)
   \<and> \<not> const (spec_of (memory_planning (\<lambda>i. (1, 120 * i)) test_model_elided) 6)
   \<and> storage (spec_of (memory_planning (\<lambda>i. (1, 120 * i)) test_model_elided) 6) = None
   \<and> mem_id (spec_of (memory_planning (\<lambda>i. (1, 120 * i)) test_model_elided) 6) = Some 1
   \<and> mem_offset (spec_of (memory_planning (\<lambda>i. (1, 120 * i)) test_model_elided) 6) = Some 600"
proof -
  have v2: "2 < length test_model_graph" "target (test_model_graph ! 2) = view_copy"
    and v6: "6 < length test_model_graph" "target (test_model_graph ! 6) = view_copy"
    by (simp_all add: test_model_graph_def)
  have base: "const (spec (test_model_graph ! 0))" "storage (spec (test_model_graph ! 0)) = Some 0"
    "lifetime (spec (test_model_graph ! 0)) = (0, 2)"
    "\<not> const (spec (test_model_graph ! 5))" "lifetime (spec (test_model_graph ! 5)) = (4, 6)"
    "last_use test_model_graph 0 = 2" "last_use test_model_graph 2 = 5"
    "last_use test_model_graph 5 = 6" "last_use test_model_graph 6 = 7"
    by (simp_all add: test_model_graph_def last_use_def)
  note A = view_alias_equivalence [OF test_model_wf test_model_inv test_model_pass v2 refl refl,
      of "\<lambda>i. (1, 120 * i)", unfolded test_model_resolve test_model_group]
  note B = view_alias_equivalence [OF test_model_wf test_model_inv test_model_pass v6 refl refl,
      of "\<lambda>i. (1, 120 * i)", unfolded test_model_resolve test_model_group]
  from A B test_model_pass show ?thesis
    by (auto simp: base)
qed

text \<open>
  Claim C7 (the plan of the test model). For the graph of \<open>TestModel1\<close> (a parameter of
  shape [5, 6] viewed to [6, 5], multiplied with a view of the input, the product viewed
  to [30]) the pass succeeds, and the emitted plan has exactly 4 instructions and
  exactly 2 operator-table entries, \<open>executorch_prim::et_view\<close> at index 0 and
  \<open>aten::mul\<close> at index 1, which is the order in which the four calls first mention
  them; the operator indices of the instructions are 0, 0, 1, 0.
\<close>

theorem test_model_execution_plan:
  "\<exists>g. remove_view_copy test_model_graph = Inr g
     \<and> length (instructions (emit (memory_planning place g))) = 4
     \<and> length (operators (emit (memory_planning place g))) = 2
     \<and> distinct (operators (emit (memory_planning place g)))
     \<and> map qualified_name (operators (emit (memory_planning place g)))
          = [''executorch_prim::et_view'', ''aten::mul'']
     \<and> map op_index (instructions (emit (memory_planning place g))) = [0, 0, 1, 0]
     \<and> callees (memory_planning place g) [0..<length g]
          = [et_view, et_view, OpIdentity ''aten'' ''mul'' ''out'', et_view]
     \<and> operators (emit (memory_planning place g))
          = rev (remdups (rev (callees (memory_planning place g) [0..<length g])))"
proof -
  have e: "emit (memory_planning place test_model_elided) = emit test_model_elided"
    using wf_test_model_elided by (rule emit_memory_planning)
  have c: "callees (memory_planning place test_model_elided) [0..<length test_model_elided]
             = callees test_model_elided [0..<length test_model_elided]"
    using wf_test_model_elided by (rule callees_memory_planning)
  have q: "map qualified_name [et_view, OpIdentity ''aten'' ''mul'' ''out'']
             = [''executorch_prim::et_view'', ''aten::mul'']"
    by (simp add: qualified_name_def et_view_def)
  have d: "et_view \<noteq> OpIdentity ''aten'' ''mul'' ''out''"
    by (simp add: et_view_def)
  have main: "length (instructions (emit (memory_planning place test_model_elided))) = 4
     \<and> length (operators (emit (memory_planning place test_model_elided))) = 2
     \<and> distinct (operators (emit (memory_planning place test_model_elided)))
     \<and> map qualified_name (operators (emit (memory_planning place test_model_elided)))
          = [''executorch_prim::et_view'', ''aten::mul'']
     \<and> map op_index (instructions (emit (memory_planning place test_model_elided))) = [0, 0, 1, 0]
     \<and> callees (memory_planning place test_model_elided) [0..<length test_model_elided]
          = [et_view, et_view, OpIdentity ''aten'' ''mul'' ''out'', et_view]
     \<and> operators (emit (memory_planning place test_model_elided))
          = rev (remdups (rev (callees (memory_planning place test_model_elided)
                [0..<length test_model_elided])))"
    unfolding e c test_model_callees
    by (simp add: test_model_emit qualified_name_def et_view_def)
  show ?thesis
    by (rule exI [of _ test_model_elided]) (rule conjI [OF test_model_pass main])
qed

end
